theory Spec2Isabelle
  imports Complex_Main "HOL-Library.Product_Lexorder"
begin

section \<open>Shared types\<close>

text \<open>
  The text of a message or of an API key is the list of its UTF-16 code units, as in
  JavaScript; \<open>units\<close> gives the code units of a literal, which is ASCII in this program.
\<close>

definition units :: "string \<Rightarrow> nat list" where
  "units s = map of_char s"

text \<open>
  Values that JavaScript code can throw or reject with. \<open>parseErrorMessage\<close> tells an
  \<open>Error\<close> object (it has a message) from a thrown string and from anything else.
\<close>

datatype thrown = ErrorObj "nat list" | StringVal "nat list" | OtherVal

datatype MapStyle = Photorealistic | Pixel

datatype FinalReason = Passed | LimitReached

text \<open>
  \<open>LeakDetectionResult\<close> of utils/imageDiff.ts; \<open>leakMapUrl: string | null\<close>.
\<close>

record LeakDetectionResult =
  needsRefinement :: bool
  leakMapUrl :: "string option"

text \<open>
  \<open>AnalysisRecord\<close> of types.ts. \<open>leakMap\<close> is declared \<open>string\<close>, but the hook stores
  \<open>analysisResult.leakMapUrl!\<close>, which is \<open>null\<close> at run time when the detector returned no
  map, so the field is an option here. \<open>isManual?\<close> is an optional field.
\<close>

record AnalysisRecord =
  revision :: int
  mapImage :: string
  aiChangeMap :: "string option"
  leakMap :: "string option"
  passed :: bool
  isFinal :: bool
  finalReason :: "FinalReason option"
  isManual :: "bool option"

section \<open>The refinement controller (the hook useMapGeneration)\<close>

text \<open>
  The hook in its version with \<open>manualRefine\<close> and with the \<open>isFinal\<close>, \<open>finalReason\<close> and
  \<open>isManual\<close> fields of \<open>AnalysisRecord\<close>. In the source tree this version is the second
  document of src/types.ts; hooks/useMapGeneration.ts holds an earlier one that has neither.
\<close>

subsection \<open>String.prototype.trim\<close>

text \<open>
  \<open>trim\<close> removes the white space and the line terminators of ECMAScript, all of which are
  single code units.
\<close>

definition isWhiteSpace :: "nat \<Rightarrow> bool" where
  "isWhiteSpace u =
     (u \<in> {0x0009, 0x000A, 0x000B, 0x000C, 0x000D, 0x0020, 0x00A0, 0x1680, 0x2028, 0x2029,
            0x202F, 0x205F, 0x3000, 0xFEFF}
      \<or> (0x2000 \<le> u \<and> u \<le> 0x200A))"

definition trim :: "nat list \<Rightarrow> nat list" where
  "trim s = rev (dropWhile isWhiteSpace (rev (dropWhile isWhiteSpace s)))"

subsection \<open>External collaborators\<close>

text \<open>
  The calls the hook makes. \<open>awaitF\<close> is the outcome of \<open>await F(...)\<close>: a throw or a
  rejected promise is \<open>Inl\<close>. The generation service and the detection worker are not
  functions of their arguments (a network service, a worker that may crash), so the awaited
  calls carry the ordinal of the call within the run as a first argument.
  \<open>generateDiffMap\<close> never rejects: it resolves with \<open>null\<close> or a data URL.
  \<open>toLowerCase\<close> is \<open>String.prototype.toLowerCase\<close>, the Unicode case mapping of the runtime.
\<close>

record 'c Environment =
  toLowerCase :: "nat list \<Rightarrow> nat list"
  createAiClient :: "nat list \<Rightarrow> thrown + 'c"
  generatePromptWithLegend :: "MapStyle \<Rightarrow> string"
  awaitGenerateMapFromDrawing :: "'c \<Rightarrow> string \<Rightarrow> string \<Rightarrow> thrown + string"
  awaitRefineGeneratedMap :: "nat \<Rightarrow> 'c \<Rightarrow> string \<Rightarrow> MapStyle \<Rightarrow> thrown + string"
  awaitHasBlueprintLeaks :: "nat \<Rightarrow> string \<Rightarrow> MapStyle \<Rightarrow> thrown + LeakDetectionResult"
  awaitGenerateDiffMap :: "nat \<Rightarrow> string \<Rightarrow> string \<Rightarrow> string option"

subsection \<open>parseErrorMessage\<close>

fun includesStr :: "'a list \<Rightarrow> 'a list \<Rightarrow> bool" where
  "includesStr [] sub = (sub = [])"
| "includesStr (c # cs) sub = (take (length sub) (c # cs) = sub \<or> includesStr cs sub)"

definition parseErrorMessage :: "'c Environment \<Rightarrow> thrown \<Rightarrow> nat list" where
  "parseErrorMessage env err =
     (let message = (case err of
                       ErrorObj m \<Rightarrow> m
                     | StringVal m \<Rightarrow> m
                     | OtherVal \<Rightarrow> units ''An unknown error occurred. Please check the browser console for more details.'')
      in if includesStr (toLowerCase env message) (units ''api key'') then
           units ''Failed to generate map. Your API key might be invalid or missing permissions. Please verify your key and try again.''
         else if includesStr (toLowerCase env message) (units ''quota'') then
           units ''You have exceeded your API quota. Please check your Google AI Studio dashboard for usage limits.''
         else if includesStr (toLowerCase env message) (units ''network'') then
           units ''A network error occurred. Please check your internet connection and try again.''
         else if includesStr (toLowerCase env message) (units ''refusal'')
                 \<or> includesStr (toLowerCase env message) (units ''text response instead of an image'') then
           units ''The AI was unable to generate an image for this request, which can sometimes happen with complex prompts or safety policies. Try a different design or style.''
         else message)"

subsection \<open>The state of the hook\<close>

record HookState =
  isLoading :: bool
  loadingMessage :: string
  error :: "nat list option"
  generatedImage :: "string option"
  blueprintImage :: "string option"
  analysisHistory :: "AnalysisRecord list"

definition initialState :: HookState where
  "initialState =
     \<lparr>isLoading = False, loadingMessage = [], error = None, generatedImage = None,
      blueprintImage = None, analysisHistory = []\<rparr>"

subsection \<open>generateMap\<close>

text \<open>
  The \<open>while (!passedCheck && refinementCount < maxRefinements)\<close> loop. The loop state is
  \<open>(refinementCount, currentMapUrl, passedCheck, localAnalysisHistory)\<close>. The result
  carries the value thrown by an external call, if any, along with the state reached: the
  history published by \<open>setAnalysisHistory\<close> so far stays in the hook's state when the
  \<open>catch\<close> block runs.
\<close>

function refinementLoop ::
  "'c Environment \<Rightarrow> 'c \<Rightarrow> MapStyle \<Rightarrow> int \<Rightarrow> int \<times> string \<times> bool \<times> AnalysisRecord list
     \<Rightarrow> thrown option \<times> string \<times> bool \<times> AnalysisRecord list" where
  "refinementLoop env aiClient mapStyle maxRefinements
       (refinementCount, currentMapUrl, passedCheck, localAnalysisHistory) =
     (if \<not> passedCheck \<and> refinementCount < maxRefinements then
        (let refinementCount' = refinementCount + 1;
             previousMapUrl = currentMapUrl
         in case awaitRefineGeneratedMap env (nat refinementCount') aiClient currentMapUrl mapStyle of
              Inl err \<Rightarrow> (Some err, currentMapUrl, passedCheck, localAnalysisHistory)
            | Inr currentMapUrl' \<Rightarrow>
                (let aiChangeMap' =
                       awaitGenerateDiffMap env (nat refinementCount') previousMapUrl currentMapUrl'
                 in case awaitHasBlueprintLeaks env (nat refinementCount') currentMapUrl' mapStyle of
                      Inl err \<Rightarrow> (Some err, currentMapUrl', passedCheck, localAnalysisHistory)
                    | Inr analysisResult \<Rightarrow>
                        (let passedCheck' = (\<not> needsRefinement analysisResult);
                             isFinalAfterRefinement =
                               (passedCheck' \<or> refinementCount' \<ge> maxRefinements)
                         in refinementLoop env aiClient mapStyle maxRefinements
                              (refinementCount', currentMapUrl', passedCheck',
                               localAnalysisHistory @
                                 [\<lparr>revision = refinementCount' + 1,
                                   mapImage = currentMapUrl',
                                   aiChangeMap = aiChangeMap',
                                   leakMap = leakMapUrl analysisResult,
                                   passed = passedCheck',
                                   isFinal = isFinalAfterRefinement,
                                   finalReason =
                                     (if isFinalAfterRefinement
                                      then Some (if passedCheck' then Passed else LimitReached)
                                      else None),
                                   isManual = None\<rparr>]))))
      else (None, currentMapUrl, passedCheck, localAnalysisHistory))"
  by pat_completeness auto
termination
  by (relation "measure (\<lambda>(env, aiClient, mapStyle, maxRefinements, refinementCount, rest).
                            nat (maxRefinements - refinementCount))") auto

declare refinementLoop.simps [simp del]

text \<open>
  \<open>generateMap\<close>. \<open>vectorObjects\<close> matters only through its length; \<open>blueprintData\<close> is what
  \<open>rasterizeVectorsToImage()\<close> returned (the empty string is falsy). The result is the
  state of the hook once the returned promise has settled.
\<close>

definition generateMap ::
  "'c Environment \<Rightarrow> 'v list \<Rightarrow> string \<Rightarrow> nat list \<Rightarrow> MapStyle \<Rightarrow> int \<Rightarrow> HookState
     \<Rightarrow> HookState" where
  "generateMap env vectorObjects blueprintData apiKey mapStyle maxRefinements s =
     (if length vectorObjects = 0 then
        s\<lparr>error := Some (units ''Please draw something on the blueprint before generating a map.'')\<rparr>
      else if trim apiKey = [] then
        s\<lparr>error := Some (units ''An API key is required. Please enter one at the top or ensure the environment key is available.'')\<rparr>
      else case createAiClient env (trim apiKey) of
        Inl err \<Rightarrow> s\<lparr>error := Some (parseErrorMessage env err)\<rparr>
      | Inr aiClient \<Rightarrow>
          if blueprintData = [] then s\<lparr>error := Some (units ''Could not create blueprint image.'')\<rparr>
          else
            (let s1 = s\<lparr>blueprintImage := Some blueprintData, isLoading := True, error := None,
                        generatedImage := None, analysisHistory := []\<rparr>;
                 generationPrompt = generatePromptWithLegend env mapStyle
             in case awaitGenerateMapFromDrawing env aiClient blueprintData generationPrompt of
                  Inl err \<Rightarrow>
                    s1\<lparr>error := Some (parseErrorMessage env err), isLoading := False, loadingMessage := []\<rparr>
                | Inr currentMapUrl \<Rightarrow>
                    (case awaitHasBlueprintLeaks env 0 currentMapUrl mapStyle of
                       Inl err \<Rightarrow>
                         s1\<lparr>error := Some (parseErrorMessage env err), isLoading := False,
                            loadingMessage := []\<rparr>
                     | Inr analysisResult \<Rightarrow>
                         (let passedCheck = (\<not> needsRefinement analysisResult);
                              isFinalAfterInitial = (passedCheck \<or> maxRefinements = 0);
                              localAnalysisHistory =
                                [\<lparr>revision = 1,
                                  mapImage = currentMapUrl,
                                  aiChangeMap = None,
                                  leakMap = leakMapUrl analysisResult,
                                  passed = passedCheck,
                                  isFinal = isFinalAfterInitial,
                                  finalReason =
                                    (if isFinalAfterInitial
                                     then Some (if passedCheck then Passed else LimitReached)
                                     else None),
                                  isManual = None\<rparr>]
                          in case refinementLoop env aiClient mapStyle maxRefinements
                                    (0, currentMapUrl, passedCheck, localAnalysisHistory) of
                               (Some err, currentMapUrl', passedCheck', history) \<Rightarrow>
                                 s1\<lparr>analysisHistory := history,
                                    error := Some (parseErrorMessage env err),
                                    isLoading := False, loadingMessage := []\<rparr>
                             | (None, currentMapUrl', passedCheck', history) \<Rightarrow>
                                 s1\<lparr>analysisHistory := history,
                                    generatedImage := Some currentMapUrl',
                                    isLoading := False, loadingMessage := []\<rparr>))))"

subsection \<open>manualRefine\<close>

text \<open>
  \<open>localAnalysisHistory = [...analysisHistory]\<close> copies the array, not the records: clearing
  \<open>isFinal\<close> and \<open>finalReason\<close> of \<open>lastRevision\<close> writes to the record that the hook's own
  history holds, so the cleared record is in the state on every later path, also when the
  refine call throws and \<open>setAnalysisHistory\<close> is never reached.
\<close>

definition clearLastFinal :: "AnalysisRecord list \<Rightarrow> AnalysisRecord list" where
  "clearLastFinal history =
     (if history \<noteq> [] \<and> isFinal (last history)
      then butlast history @ [(last history)\<lparr>isFinal := False, finalReason := None\<rparr>]
      else history)"

definition manualRefine ::
  "'c Environment \<Rightarrow> nat list \<Rightarrow> MapStyle \<Rightarrow> HookState \<Rightarrow> HookState" where
  "manualRefine env apiKey mapStyle s =
     (case generatedImage s of
        None \<Rightarrow> s
      | Some previousMapUrl \<Rightarrow>
          if previousMapUrl = [] \<or> isLoading s then s
          else if trim apiKey = [] then
            s\<lparr>error := Some (units ''An API key is required for manual refinement.'')\<rparr>
          else case createAiClient env (trim apiKey) of
            Inl err \<Rightarrow> s\<lparr>error := Some (parseErrorMessage env err)\<rparr>
          | Inr aiClient \<Rightarrow>
              (let localAnalysisHistory = clearLastFinal (analysisHistory s);
                   lastRevisionNumber =
                     (if analysisHistory s \<noteq> [] then revision (last (analysisHistory s)) else 0);
                   s1 = s\<lparr>isLoading := True, error := None,
                          analysisHistory := localAnalysisHistory\<rparr>
               in case awaitRefineGeneratedMap env 0 aiClient previousMapUrl mapStyle of
                    Inl err \<Rightarrow>
                      s1\<lparr>error := Some (parseErrorMessage env err), isLoading := False,
                         loadingMessage := []\<rparr>
                  | Inr currentMapUrl \<Rightarrow>
                      (let aiChangeMap' = awaitGenerateDiffMap env 0 previousMapUrl currentMapUrl
                       in case awaitHasBlueprintLeaks env 0 currentMapUrl mapStyle of
                            Inl err \<Rightarrow>
                              s1\<lparr>error := Some (parseErrorMessage env err), isLoading := False,
                                 loadingMessage := []\<rparr>
                          | Inr analysisResult \<Rightarrow>
                              (let passedCheck = (\<not> needsRefinement analysisResult)
                               in s1\<lparr>analysisHistory :=
                                        localAnalysisHistory @
                                          [\<lparr>revision = lastRevisionNumber + 1,
                                            mapImage = currentMapUrl,
                                            aiChangeMap = aiChangeMap',
                                            leakMap = leakMapUrl analysisResult,
                                            passed = passedCheck,
                                            isFinal = True,
                                            finalReason =
                                              Some (if passedCheck then Passed else LimitReached),
                                            isManual = Some True\<rparr>],
                                     generatedImage := Some currentMapUrl,
                                     isLoading := False, loadingMessage := []\<rparr>))))"

definition clearGeneration :: "HookState \<Rightarrow> HookState" where
  "clearGeneration s =
     s\<lparr>generatedImage := None, blueprintImage := None, error := None, analysisHistory := []\<rparr>"

text \<open>
  The states the hook can be in between two calls: it starts with an empty history, and
  each of its three operations runs to completion against some environment.
\<close>

inductive reachable :: "'c Environment itself \<Rightarrow> HookState \<Rightarrow> bool" where
  reach_init: "reachable TYPE('c Environment) initialState"
| reach_generate:
    "reachable TYPE('c Environment) s \<Longrightarrow>
     reachable TYPE('c Environment)
       (generateMap (env :: 'c Environment) (vectorObjects :: unit list) blueprintData apiKey
          mapStyle maxRefinements s)"
| reach_manual:
    "reachable TYPE('c Environment) s \<Longrightarrow>
     reachable TYPE('c Environment) (manualRefine (env :: 'c Environment) apiKey mapStyle s)"
| reach_clear:
    "reachable TYPE('c Environment) s \<Longrightarrow> reachable TYPE('c Environment) (clearGeneration s)"

text \<open>The invariant of section 3 on one record.\<close>

definition reasonConsistent :: "AnalysisRecord \<Rightarrow> bool" where
  "reasonConsistent r =
     ((finalReason r = Some Passed \<longrightarrow> passed r) \<and>
      (finalReason r = Some LimitReached \<longrightarrow> \<not> passed r))"

section \<open>The analysis worker (workerCode of utils/imageDiff.ts)\<close>

text \<open>
  The worker script \<open>workerCode\<close> and the two calls of the main thread, \<open>hasBlueprintLeaks\<close>
  and \<open>generateDiffMap\<close>, in the version with the cluster and shape analysis: the second
  document of src/unnamed/part_005.
\<close>

subsection \<open>Images and colors\<close>

text \<open>
  What \<open>getImageData(0, 0, width, height)\<close> returns once the decoded image has been drawn
  on a canvas of its own size: \<open>data\<close> is the \<open>Uint8ClampedArray\<close> of \<open>4 * width * height\<close>
  bytes, \<open>data i\<close> the byte at index \<open>i\<close> (red, green, blue, alpha of pixel \<open>i div 4\<close>).
  The typed arrays \<open>leaks\<close>, \<open>visited\<close> and \<open>visitedForFlatness\<close>, which hold only 0 and 1,
  are the sets of the indices that hold 1.
\<close>

record ImageData =
  width :: nat
  height :: nat
  data :: "nat \<Rightarrow> int"

text \<open>An entry of \<open>blueprintColorsRGB\<close>: \<open>{ id, r, g, b }\<close>.\<close>

record BlueprintColorRGB =
  colorId :: string
  colorR :: int
  colorG :: int
  colorB :: int

definition colorDistanceSq :: "int \<Rightarrow> int \<Rightarrow> int \<Rightarrow> int \<Rightarrow> int \<Rightarrow> int \<Rightarrow> int" where
  "colorDistanceSq r1 g1 b1 r2 g2 b2 = (r1 - r2)\<^sup>2 + (g1 - g2)\<^sup>2 + (b1 - b2)\<^sup>2"

subsection \<open>Shape analysis helpers\<close>

text \<open>A point \<open>{ x, y }\<close> is the pair \<open>(x, y)\<close>.\<close>

type_synonym point = "int \<times> int"

definition crossProduct :: "point \<Rightarrow> point \<Rightarrow> point \<Rightarrow> int" where
  "crossProduct p1 p2 p3 =
     (fst p2 - fst p1) * (snd p3 - snd p1) - (snd p2 - snd p1) * (fst p3 - fst p1)"

text \<open>
  The comparator given to \<open>Array.prototype.sort\<close>, and the sort as an insertion sort.
  Two points that the comparator does not separate are the same point, so every correct
  sorting algorithm returns the same list of values.
\<close>

definition comparePoints :: "point \<Rightarrow> point \<Rightarrow> int" where
  "comparePoints a b = (if fst a \<noteq> fst b then fst a - fst b else snd a - snd b)"

fun insertPoint :: "point \<Rightarrow> point list \<Rightarrow> point list" where
  "insertPoint p [] = [p]"
| "insertPoint p (q # qs) =
     (if comparePoints p q \<le> 0 then p # q # qs else q # insertPoint p qs)"

definition sortPoints :: "point list \<Rightarrow> point list" where
  "sortPoints points = foldr insertPoint points []"

text \<open>The \<open>while\<close> loop of \<open>buildHull\<close> that pops the points making a non-left turn
  (\<open>hullPts\<close> is the array \<open>hull\<close>).\<close>

function popNonLeft :: "point list \<Rightarrow> point \<Rightarrow> point list" where
  "popNonLeft hullPts point =
     (if length hullPts \<ge> 2
         \<and> crossProduct (hullPts ! (length hullPts - 2)) (hullPts ! (length hullPts - 1)) point \<le> 0
      then popNonLeft (butlast hullPts) point
      else hullPts)"
  by pat_completeness auto
termination
  by (relation "measure (\<lambda>(hullPts, point). length hullPts)") auto

declare popNonLeft.simps [simp del]

definition buildHull :: "point list \<Rightarrow> point list" where
  "buildHull points = fold (\<lambda>point hullPts. popNonLeft hullPts point @ [point]) points []"

definition getConvexHull :: "point list \<Rightarrow> point list" where
  "getConvexHull points =
     (if length points \<le> 2 then points
      else (let sortedPoints = sortPoints points;
                lowerHull = buildHull sortedPoints;
                upperHull = buildHull (rev sortedPoints)
            in butlast lowerHull @ butlast upperHull))"

text \<open>
  The shoelace sum is an integer; halving it and the division of the solidity test are
  done in the rationals. (JavaScript numbers are doubles: they hold the integers that occur
  here exactly, and rounding the quotient cannot move it across 0.75.)
\<close>

definition shoelaceSum :: "point list \<Rightarrow> int" where
  "shoelaceSum points =
     fold (\<lambda>i area.
             (let j = (if i = 0 then length points - 1 else i - 1)
              in area + (fst (points ! j) + fst (points ! i)) * (snd (points ! j) - snd (points ! i))))
          [0..<length points] 0"

definition polygonArea :: "point list \<Rightarrow> rat" where
  "polygonArea points = \<bar>of_int (shoelaceSum points) / 2\<bar>"

subsection \<open>Pass 1: flat patch detection\<close>

text \<open>
  The neighbors pushed for \<open>currentIdx\<close>: top, bottom, left, right. For a height or width
  of 0 the tests \<open>y < height - 1\<close> and \<open>x < width - 1\<close> are false in JavaScript and, with the
  truncating subtraction of the naturals, here.
\<close>

definition flatNeighbors :: "nat \<Rightarrow> nat \<Rightarrow> nat \<Rightarrow> nat list" where
  "flatNeighbors w h currentIdx =
     (let x = currentIdx mod w; y = currentIdx div w
      in (if y > 0 then [currentIdx - w] else [])
         @ (if y < h - 1 then [currentIdx + w] else [])
         @ (if x > 0 then [currentIdx - 1] else [])
         @ (if x < w - 1 then [currentIdx + 1] else []))"

text \<open>
  The body of \<open>for (const neighborIdx of neighbors)\<close>. An index past the end of \<open>data\<close>
  reads \<open>undefined\<close>, the distance is then \<open>NaN\<close> and the comparison false: this is the
  test \<open>neighborIdx < width * height\<close>.
\<close>

definition flatVisit ::
  "ImageData \<Rightarrow> int \<Rightarrow> int \<times> int \<times> int \<Rightarrow> nat \<Rightarrow> nat set \<times> nat list \<Rightarrow> nat set \<times> nat list" where
  "flatVisit img flatnessThresholdSq start neighborIdx s =
     (case (start, s) of ((startR, startG, startB), (visitedForFlatness, queue)) \<Rightarrow>
        if neighborIdx \<notin> visitedForFlatness then
          (let nIdx = neighborIdx * 4;
               nR = data img nIdx; nG = data img (nIdx + 1); nB = data img (nIdx + 2)
           in if neighborIdx < width img * height img
                 \<and> colorDistanceSq startR startG startB nR nG nB < flatnessThresholdSq
              then (insert neighborIdx visitedForFlatness, queue @ [neighborIdx])
              else (visitedForFlatness, queue))
        else (visitedForFlatness, queue))"

lemma fold_flatVisit_grows:
  "fold (flatVisit img thr start) nbrs (v, q) = (v', q') \<Longrightarrow>
   v \<subseteq> v' \<and> v' \<subseteq> v \<union> {..<width img * height img} \<and> (v' = v \<longrightarrow> q' = q)"
proof (induction nbrs arbitrary: v q)
  case Nil
  then show ?case by simp
next
  case (Cons nb nbrs)
  obtain v1 q1 where s: "flatVisit img thr start nb (v, q) = (v1, q1)"
    by (cases "flatVisit img thr start nb (v, q)")
  then have 1: "v \<subseteq> v1 \<and> v1 \<subseteq> v \<union> {..<width img * height img} \<and> (v1 = v \<longrightarrow> q1 = q)"
    by (cases start) (auto simp: flatVisit_def Let_def split: if_splits)
  from Cons.prems s have "fold (flatVisit img thr start) nbrs (v1, q1) = (v', q')"
    by simp
  from Cons.IH[OF this] 1 show ?case by blast
qed

text \<open>
  The \<open>while (queue.length > 0)\<close> loop. The state is
  \<open>(visitedForFlatness, queue, flatClusterIndices)\<close>.
\<close>

function flatFill ::
  "ImageData \<Rightarrow> int \<Rightarrow> int \<times> int \<times> int \<Rightarrow> nat set \<times> nat list \<times> nat list
     \<Rightarrow> nat set \<times> nat list" where
  "flatFill img flatnessThresholdSq start (visitedForFlatness, queue, flatClusterIndices) =
     (case queue of
        [] \<Rightarrow> (visitedForFlatness, flatClusterIndices)
      | currentIdx # rest \<Rightarrow>
          (case fold (flatVisit img flatnessThresholdSq start)
                  (flatNeighbors (width img) (height img) currentIdx)
                  (visitedForFlatness, rest) of
             (visitedForFlatness', queue') \<Rightarrow>
               flatFill img flatnessThresholdSq start
                 (visitedForFlatness', queue', flatClusterIndices @ [currentIdx])))"
  by pat_completeness auto
termination
proof (relation "measures [\<lambda>(img, thr, start, v, q, c). card ({..<width img * height img} - v),
                           \<lambda>(img, thr, start, v, q, c). length q]", goal_cases)
  case 1
  then show ?case by simp
next
  case (2 img thr start v queue c currentIdx rest v' q')
  then have f: "fold (flatVisit img thr start)
                  (flatNeighbors (width img) (height img) currentIdx) (v, rest) = (v', q')"
    by simp
  note g = fold_flatVisit_grows[OF f]
  show ?case
  proof (cases "v' = v")
    case True
    with g 2 show ?thesis by simp
  next
    case False
    with g have "{..<width img * height img} - v' \<subset> {..<width img * height img} - v"
      by blast
    then have "card ({..<width img * height img} - v') < card ({..<width img * height img} - v)"
      by (intro psubset_card_mono) auto
    then show ?thesis by simp
  qed
qed

declare flatFill.simps [simp del]

text \<open>
  The body of the outer loop over the pixels. The third component of the state is not in
  the code: it records, in order, each \<open>flatClusterIndices\<close> that the body has built, so that
  the regions can be spoken about.
\<close>

definition flatPatchStep ::
  "ImageData \<Rightarrow> int \<Rightarrow> int \<Rightarrow> nat \<Rightarrow> nat set \<times> nat set \<times> nat list list
     \<Rightarrow> nat set \<times> nat set \<times> nat list list" where
  "flatPatchStep img clusterSizeThreshold flatnessThresholdSq pixelIndex s =
     (case s of (visitedForFlatness, leaks, regions) \<Rightarrow>
        if pixelIndex \<in> visitedForFlatness then s
        else
          (let i = pixelIndex * 4;
               startR = data img i; startG = data img (i + 1); startB = data img (i + 2)
           in case flatFill img flatnessThresholdSq (startR, startG, startB)
                     (insert pixelIndex visitedForFlatness, [pixelIndex], []) of
                (visitedForFlatness', flatClusterIndices) \<Rightarrow>
                  (visitedForFlatness',
                   (if int (length flatClusterIndices) > clusterSizeThreshold
                    then leaks \<union> set flatClusterIndices else leaks),
                   regions @ [flatClusterIndices])))"

text \<open>
  Pass 1 as a whole: \<open>if (flatnessThresholdSq && flatnessThresholdSq > 0)\<close>, where
  \<open>undefined\<close> is \<open>None\<close>. The result is \<open>(leaks, regions)\<close>.
\<close>

definition flatPatchPass ::
  "ImageData \<Rightarrow> int \<Rightarrow> int option \<Rightarrow> nat set \<times> nat list list" where
  "flatPatchPass img clusterSizeThreshold flatnessThresholdSq =
     (case flatnessThresholdSq of
        None \<Rightarrow> ({}, [])
      | Some thr \<Rightarrow>
          if thr \<noteq> 0 \<and> thr > 0 then
            snd (fold (flatPatchStep img clusterSizeThreshold thr)
                   [0..<width img * height img] ({}, {}, []))
          else ({}, []))"

subsection \<open>Pass 2: blueprint color leak detection\<close>

text \<open>The inner loop over \<open>blueprintColorsRGB\<close> with its \<open>break\<close>.\<close>

definition matchesBlueprint :: "BlueprintColorRGB list \<Rightarrow> int \<Rightarrow> int \<Rightarrow> int \<Rightarrow> int \<Rightarrow> bool" where
  "matchesBlueprint blueprintColorsRGB colorMatchThresholdSq r g b =
     list_ex (\<lambda>blueprintColor.
                colorDistanceSq r g b (colorR blueprintColor) (colorG blueprintColor)
                  (colorB blueprintColor) < colorMatchThresholdSq)
             blueprintColorsRGB"

text \<open>
  The body of the loop over the pixels. The second component of the state is not in the
  code: it lists the pixels that were compared with the palette, that is, those the
  \<open>continue\<close> did not skip.
\<close>

definition paletteStep ::
  "ImageData \<Rightarrow> BlueprintColorRGB list \<Rightarrow> int \<Rightarrow> nat \<Rightarrow> nat set \<times> nat list \<Rightarrow> nat set \<times> nat list" where
  "paletteStep img blueprintColorsRGB colorMatchThresholdSq pixelIndex s =
     (case s of (leaks, compared) \<Rightarrow>
        if pixelIndex \<in> leaks then s
        else
          (let i = pixelIndex * 4;
               r = data img i; g = data img (i + 1); b = data img (i + 2)
           in ((if matchesBlueprint blueprintColorsRGB colorMatchThresholdSq r g b
                then insert pixelIndex leaks else leaks),
               compared @ [pixelIndex])))"

definition palettePass ::
  "ImageData \<Rightarrow> BlueprintColorRGB list \<Rightarrow> int \<Rightarrow> nat set \<Rightarrow> nat set \<times> nat list" where
  "palettePass img blueprintColorsRGB colorMatchThresholdSq leaks =
     fold (paletteStep img blueprintColorsRGB colorMatchThresholdSq)
       [0..<width img * height img] (leaks, [])"

text \<open>Passes 1 and 2 together: the leak mask.\<close>

definition leakMask ::
  "ImageData \<Rightarrow> BlueprintColorRGB list \<Rightarrow> int \<Rightarrow> int \<Rightarrow> int option \<Rightarrow> nat set" where
  "leakMask img blueprintColorsRGB clusterSizeThreshold colorMatchThresholdSq flatnessThresholdSq =
     fst (palettePass img blueprintColorsRGB colorMatchThresholdSq
            (fst (flatPatchPass img clusterSizeThreshold flatnessThresholdSq)))"

subsection \<open>Pass 3: the heatmap and the count\<close>

definition heatmapOf :: "nat \<Rightarrow> nat \<Rightarrow> nat set \<Rightarrow> ImageData" where
  "heatmapOf w h leaks =
     \<lparr>width = w, height = h,
      data = (\<lambda>j. if j div 4 < w * h \<and> j div 4 \<in> leaks then [255, 0, 0, 180] ! (j mod 4) else 0)\<rparr>"

definition totalLeakedPixels :: "nat \<Rightarrow> nat \<Rightarrow> nat set \<Rightarrow> nat" where
  "totalLeakedPixels w h leaks = length (filter (\<lambda>i. i \<in> leaks) [0..<w * h])"

subsection \<open>Pass 4: cluster and shape analysis\<close>

definition searchRadius :: int where
  "searchRadius = 3"

definition SOLIDITY_THRESHOLD :: rat where
  "SOLIDITY_THRESHOLD = 0.75"

text \<open>The offsets \<open>(nx, ny)\<close> in the order of the two nested loops, without \<open>(0, 0)\<close>.\<close>

definition windowOffsets :: "(int \<times> int) list" where
  "windowOffsets =
     concat (map (\<lambda>ny. concat (map (\<lambda>nx. if nx = 0 \<and> ny = 0 then [] else [(nx, ny)])
                                  [- searchRadius..searchRadius]))
                 [- searchRadius..searchRadius])"

text \<open>The \<open>neighborIdx\<close> that pass the bounds check, in loop order.\<close>

definition clusterNeighbors :: "nat \<Rightarrow> nat \<Rightarrow> nat \<Rightarrow> nat list" where
  "clusterNeighbors w h currentIdx =
     (let x = int (currentIdx mod w); y = int (currentIdx div w)
      in map (\<lambda>(nx, ny). nat ((y + ny) * int w + (x + nx)))
           (filter (\<lambda>(nx, ny). x + nx \<ge> 0 \<and> x + nx < int w \<and> y + ny \<ge> 0 \<and> y + ny < int h)
              windowOffsets))"

definition clusterVisit :: "nat set \<Rightarrow> nat \<Rightarrow> nat set \<times> nat list \<Rightarrow> nat set \<times> nat list" where
  "clusterVisit leaks neighborIdx s =
     (case s of (visited, queue) \<Rightarrow>
        if neighborIdx \<in> leaks \<and> neighborIdx \<notin> visited
        then (insert neighborIdx visited, queue @ [neighborIdx])
        else (visited, queue))"

lemma clusterNeighbors_in_range:
  "nb \<in> set (clusterNeighbors w h cur) \<Longrightarrow> nb < w * h"
proof -
  assume "nb \<in> set (clusterNeighbors w h cur)"
  then obtain cx cy :: int where
    nb: "nb = nat (cy * int w + cx)" and b: "0 \<le> cx" "cx < int w" "0 \<le> cy" "cy < int h"
    by (auto simp: clusterNeighbors_def Let_def)
  from b have "cy + 1 \<le> int h" by simp
  then have "(cy + 1) * int w \<le> int h * int w"
    using b by (intro mult_right_mono) auto
  then have "cy * int w + cx < int h * int w"
    using b by (simp add: algebra_simps)
  moreover have "0 \<le> cy * int w + cx" using b by simp
  ultimately show ?thesis
    unfolding nb by (simp add: nat_less_iff mult.commute)
qed

lemma fold_clusterVisit_grows:
  "fold (clusterVisit leaks) nbrs (v, q) = (v', q') \<Longrightarrow>
   v \<subseteq> v' \<and> v' \<subseteq> v \<union> set nbrs \<and> (v' = v \<longrightarrow> q' = q)"
proof (induction nbrs arbitrary: v q)
  case Nil
  then show ?case by simp
next
  case (Cons nb nbrs)
  obtain v1 q1 where s: "clusterVisit leaks nb (v, q) = (v1, q1)"
    by (cases "clusterVisit leaks nb (v, q)")
  then have 1: "v \<subseteq> v1 \<and> v1 \<subseteq> v \<union> {nb} \<and> (v1 = v \<longrightarrow> q1 = q)"
    by (auto simp: clusterVisit_def split: if_splits)
  from Cons.prems s have "fold (clusterVisit leaks) nbrs (v1, q1) = (v', q')"
    by simp
  from Cons.IH[OF this] 1 show ?case by auto
qed

text \<open>
  The \<open>while (queue.length > 0)\<close> loop. The state is \<open>(visited, queue, clusterPoints)\<close>.
\<close>

function clusterFill ::
  "nat \<Rightarrow> nat \<Rightarrow> nat set \<Rightarrow> nat set \<times> nat list \<times> point list \<Rightarrow> nat set \<times> point list" where
  "clusterFill w h leaks (visited, queue, clusterPoints) =
     (case queue of
        [] \<Rightarrow> (visited, clusterPoints)
      | currentIdx # rest \<Rightarrow>
          (let x = int (currentIdx mod w); y = int (currentIdx div w)
           in case fold (clusterVisit leaks) (clusterNeighbors w h currentIdx) (visited, rest) of
                (visited', queue') \<Rightarrow>
                  clusterFill w h leaks (visited', queue', clusterPoints @ [(x, y)])))"
  by pat_completeness auto
termination
proof (relation "measures [\<lambda>(w, h, leaks, v, q, c). card ({..<w * h} - v),
                           \<lambda>(w, h, leaks, v, q, c). length q]", goal_cases)
  case 1
  then show ?case by simp
next
  case (2 w h leaks v queue c currentIdx rest x y v' q')
  then have f: "fold (clusterVisit leaks) (clusterNeighbors w h currentIdx) (v, rest) = (v', q')"
    by simp
  note g = fold_clusterVisit_grows[OF f]
  show ?case
  proof (cases "v' = v")
    case True
    with g 2 show ?thesis by simp
  next
    case False
    with g clusterNeighbors_in_range have "{..<w * h} - v' \<subset> {..<w * h} - v"
      by blast
    then have "card ({..<w * h} - v') < card ({..<w * h} - v)"
      by (intro psubset_card_mono) auto
    then show ?thesis by simp
  qed
qed

declare clusterFill.simps [simp del]

text \<open>The shape test applied to a finished cluster.\<close>

definition isBlob :: "int \<Rightarrow> point list \<Rightarrow> bool" where
  "isBlob clusterSizeThreshold clusterPoints =
     (let clusterSize = length clusterPoints
      in if int clusterSize > clusterSizeThreshold then
           (let hullPts = getConvexHull clusterPoints
            in if length hullPts > 2 then
                 (let hullArea = polygonArea hullPts
                  in if hullArea > 0 then
                       (let solidity = of_nat clusterSize / hullArea
                        in solidity > SOLIDITY_THRESHOLD)
                     else False)
               else False)
         else False)"

text \<open>
  The loop \<open>for (let i = 0; i < leaks.length; i++)\<close> over the indices still to come; the
  state is \<open>(visited, needsRefinement)\<close> (\<open>needsRef\<close> below), and the \<open>break\<close>
  returns it.
\<close>

fun clusterLoop ::
  "nat \<Rightarrow> nat \<Rightarrow> nat set \<Rightarrow> int \<Rightarrow> nat list \<Rightarrow> nat set \<times> bool \<Rightarrow> nat set \<times> bool" where
  "clusterLoop w h leaks clusterSizeThreshold [] (visited, needsRef) =
     (visited, needsRef)"
| "clusterLoop w h leaks clusterSizeThreshold (i # rest) (visited, needsRef) =
     (if needsRef then (visited, needsRef)
      else if i \<in> leaks \<and> i \<notin> visited then
        (case clusterFill w h leaks (insert i visited, [i], []) of
           (visited', clusterPoints) \<Rightarrow>
             clusterLoop w h leaks clusterSizeThreshold rest
               (visited', needsRef \<or> isBlob clusterSizeThreshold clusterPoints))
      else clusterLoop w h leaks clusterSizeThreshold rest (visited, needsRef))"

definition clusterAnalysis :: "nat \<Rightarrow> nat \<Rightarrow> nat set \<Rightarrow> int \<Rightarrow> bool" where
  "clusterAnalysis w h leaks clusterSizeThreshold =
     snd (clusterLoop w h leaks clusterSizeThreshold [0..<w * h] ({}, False))"

subsection \<open>The worker's surroundings\<close>

text \<open>
  What the worker code calls and does not define. \<open>loadImage\<close> fetches and decodes the data
  URL and, drawn on a canvas, gives the pixels; \<open>Inl\<close> is a rejected promise.
  \<open>getContext k\<close> tells whether the \<open>k\<close>-th canvas made during one call yields a 2D context
  (\<open>getContext('2d')\<close> may return \<open>null\<close>). \<open>convertToBlob\<close> encodes an overlay as PNG and may
  throw. \<open>readAsDataURL\<close> is the \<open>FileReader\<close>: \<open>Some\<close> of \<open>reader.result\<close> when \<open>onloadend\<close>
  settles the promise, \<open>None\<close> when \<open>onerror\<close> does. \<open>workerCrashes\<close> tells whether the worker
  raises an error event (\<open>worker.onerror\<close>) instead of answering.
\<close>

record WorkerEnv =
  loadImage :: "string \<Rightarrow> thrown + ImageData"
  getContext :: "nat \<Rightarrow> bool"
  convertToBlob :: "ImageData \<Rightarrow> thrown + string"
  readAsDataURL :: "string \<Rightarrow> string option"
  workerCrashes :: bool

subsection \<open>performLeakDetection\<close>

text \<open>
  The body of the \<open>try\<close> block; \<open>Inl\<close> is the value it throws. The promise built around the
  \<open>FileReader\<close> resolves with the detection result whether the reader succeeds or not.
\<close>

definition performLeakDetectionBody ::
  "WorkerEnv \<Rightarrow> string \<Rightarrow> BlueprintColorRGB list \<Rightarrow> int \<Rightarrow> int \<Rightarrow> int option
     \<Rightarrow> thrown + LeakDetectionResult" where
  "performLeakDetectionBody env mapImageSrc blueprintColorsRGB clusterSizeThreshold
       colorMatchThresholdSq flatnessThresholdSq =
     (case loadImage env mapImageSrc of
        Inl err \<Rightarrow> Inl err
      | Inr img \<Rightarrow>
          if \<not> getContext env 0 then
            Inl (ErrorObj (units ''WORKER: Could not get OffscreenCanvas context.''))
          else
            (let leaks = leakMask img blueprintColorsRGB clusterSizeThreshold
                           colorMatchThresholdSq flatnessThresholdSq
             in if \<not> getContext env 1 then
                  Inl (ErrorObj (units ''WORKER: Could not get heatmap OffscreenCanvas context.''))
                else
                  (let heatmapImageData = heatmapOf (width img) (height img) leaks
                   in if int (totalLeakedPixels (width img) (height img) leaks)
                           < clusterSizeThreshold then
                        (case convertToBlob env heatmapImageData of
                           Inl err \<Rightarrow> Inl err
                         | Inr blob \<Rightarrow>
                             Inr \<lparr>needsRefinement = False, leakMapUrl = readAsDataURL env blob\<rparr>)
                      else
                        (let needsRefinement' =
                               clusterAnalysis (width img) (height img) leaks clusterSizeThreshold
                         in case convertToBlob env heatmapImageData of
                              Inl err \<Rightarrow> Inl err
                            | Inr blob \<Rightarrow>
                                Inr \<lparr>needsRefinement = needsRefinement',
                                     leakMapUrl = readAsDataURL env blob\<rparr>))))"

text \<open>With the \<open>catch\<close> block: the promise of \<open>performLeakDetection\<close> always resolves.\<close>

definition performLeakDetection ::
  "WorkerEnv \<Rightarrow> string \<Rightarrow> BlueprintColorRGB list \<Rightarrow> int \<Rightarrow> int \<Rightarrow> int option
     \<Rightarrow> LeakDetectionResult" where
  "performLeakDetection env mapImageSrc blueprintColorsRGB clusterSizeThreshold
       colorMatchThresholdSq flatnessThresholdSq =
     (case performLeakDetectionBody env mapImageSrc blueprintColorsRGB clusterSizeThreshold
             colorMatchThresholdSq flatnessThresholdSq of
        Inl err \<Rightarrow> \<lparr>needsRefinement = False, leakMapUrl = None\<rparr>
      | Inr result \<Rightarrow> result)"

subsection \<open>performDiffing\<close>

text \<open>
  The loop over the pixels; the state is \<open>(marked, hasDifference)\<close>, where \<open>marked\<close> is the set
  of the pixels painted magenta in \<open>diffData\<close>.
\<close>

definition diffStep ::
  "ImageData \<Rightarrow> ImageData \<Rightarrow> int \<Rightarrow> nat \<Rightarrow> nat set \<times> bool \<Rightarrow> nat set \<times> bool" where
  "diffStep imgBase imgNew diffThresholdSq pixelIndex s =
     (case s of (marked, hasDifference) \<Rightarrow>
        (let i = pixelIndex * 4;
             r1 = data imgBase i; g1 = data imgBase (i + 1); b1 = data imgBase (i + 2);
             r2 = data imgNew i; g2 = data imgNew (i + 1); b2 = data imgNew (i + 2)
         in if colorDistanceSq r1 g1 b1 r2 g2 b2 > diffThresholdSq
            then (insert pixelIndex marked, True)
            else (marked, hasDifference)))"

definition diffLoop :: "ImageData \<Rightarrow> ImageData \<Rightarrow> int \<Rightarrow> nat set \<times> bool" where
  "diffLoop imgBase imgNew diffThresholdSq =
     fold (diffStep imgBase imgNew diffThresholdSq)
       [0..<width imgBase * height imgBase] ({}, False)"

definition diffOverlayOf :: "nat \<Rightarrow> nat \<Rightarrow> nat set \<Rightarrow> ImageData" where
  "diffOverlayOf w h marked =
     \<lparr>width = w, height = h,
      data = (\<lambda>j. if j div 4 \<in> marked then [255, 0, 255, 180] ! (j mod 4) else 0)\<rparr>"

definition dimensionMismatch :: thrown where
  "dimensionMismatch = ErrorObj (units ''WORKER: Image dimensions do not match for diffing.'')"

text \<open>
  The body of the \<open>try\<close> block. The contexts are not tested for \<open>null\<close> here: calling
  \<open>drawImage\<close> or \<open>createImageData\<close> on \<open>null\<close> throws a \<open>TypeError\<close>.
\<close>

definition performDiffingBody ::
  "WorkerEnv \<Rightarrow> string \<Rightarrow> string \<Rightarrow> int \<Rightarrow> thrown + string option" where
  "performDiffingBody env imageBase64 imageNewBase64 diffThresholdSq =
     (case loadImage env imageBase64 of
        Inl err \<Rightarrow> Inl err
      | Inr imgBase \<Rightarrow>
          (case loadImage env imageNewBase64 of
             Inl err \<Rightarrow> Inl err
           | Inr imgNew \<Rightarrow>
               if width imgBase \<noteq> width imgNew \<or> height imgBase \<noteq> height imgNew then
                 Inl dimensionMismatch
               else if \<not> getContext env 0 \<or> \<not> getContext env 1 \<or> \<not> getContext env 2 then
                 Inl (ErrorObj (units ''TypeError''))
               else
                 (case diffLoop imgBase imgNew diffThresholdSq of
                    (marked, hasDifference) \<Rightarrow>
                      if \<not> hasDifference then Inr None
                      else
                        (case convertToBlob env
                                (diffOverlayOf (width imgBase) (height imgBase) marked) of
                           Inl err \<Rightarrow> Inl err
                         | Inr blob \<Rightarrow> Inr (readAsDataURL env blob)))))"

text \<open>With the \<open>catch\<close> block, which logs the error and returns \<open>null\<close>.\<close>

definition performDiffing :: "WorkerEnv \<Rightarrow> string \<Rightarrow> string \<Rightarrow> int \<Rightarrow> string option" where
  "performDiffing env imageBase64 imageNewBase64 diffThresholdSq =
     (case performDiffingBody env imageBase64 imageNewBase64 diffThresholdSq of
        Inl err \<Rightarrow> None
      | Inr result \<Rightarrow> result)"

subsection \<open>The message handler and the two calls of the main thread\<close>

datatype WorkerRequest =
    DetectLeaks string "BlueprintColorRGB list" int int "int option"
  | GenerateDiff string string int
  | OtherCommand

datatype WorkerReply =
    LeakReply bool "string option"
  | DiffReply "string option"
  | ErrorReply "nat list"

definition workerOnMessage :: "WorkerEnv \<Rightarrow> WorkerRequest \<Rightarrow> WorkerReply" where
  "workerOnMessage env request =
     (case request of
        DetectLeaks mapImageSrc blueprintColorsRGB clusterSizeThreshold colorMatchThresholdSq
            flatnessThresholdSq \<Rightarrow>
          (let result = performLeakDetection env mapImageSrc blueprintColorsRGB
                          clusterSizeThreshold colorMatchThresholdSq flatnessThresholdSq
           in LeakReply (needsRefinement result) (leakMapUrl result))
      | GenerateDiff imageBase64 imageNewBase64 diffThresholdSq \<Rightarrow>
          DiffReply (performDiffing env imageBase64 imageNewBase64 diffThresholdSq)
      | OtherCommand \<Rightarrow> ErrorReply (units ''WORKER: Unknown command received.''))"

text \<open>
  \<open>getBlueprintColorsRGB()\<close>: the hexadecimal colors of \<open>TERRAINS\<close> (constants.tsx) in the
  order of \<open>Object.values(TERRAIN_MAP)\<close>.
\<close>

definition getBlueprintColorsRGB :: "BlueprintColorRGB list" where
  "getBlueprintColorsRGB =
     [\<lparr>colorId = ''grass'', colorR = 0, colorG = 255, colorB = 0\<rparr>,
      \<lparr>colorId = ''forest'', colorR = 255, colorG = 0, colorB = 255\<rparr>,
      \<lparr>colorId = ''water'', colorR = 0, colorG = 255, colorB = 255\<rparr>,
      \<lparr>colorId = ''road'', colorR = 255, colorG = 255, colorB = 0\<rparr>,
      \<lparr>colorId = ''ruined_walls'', colorR = 255, colorG = 165, colorB = 0\<rparr>,
      \<lparr>colorId = ''mountains'', colorR = 255, colorG = 0, colorB = 0\<rparr>]"

text \<open>\<open>x || null\<close> on a string or \<open>null\<close>: the empty string is falsy.\<close>

definition orNull :: "string option \<Rightarrow> string option" where
  "orNull u = (case u of None \<Rightarrow> None | Some s \<Rightarrow> if s = [] then None else Some s)"

text \<open>The thresholds that the \<open>switch (mapStyle)\<close> selects.\<close>

definition styleThresholds :: "MapStyle \<Rightarrow> int \<times> int \<times> int option" where
  "styleThresholds mapStyle =
     (case mapStyle of
        Pixel \<Rightarrow> (1000, 400, None)
      | Photorealistic \<Rightarrow> (400, 100, Some 50))"

text \<open>
  \<open>hasBlueprintLeaks\<close>: the outcome of the promise; \<open>Inl\<close> is a rejection. A reply that is
  not an answer to \<open>detectLeaks\<close> has no \<open>result\<close> field: \<open>needsRefinement\<close> is then
  \<open>undefined\<close>, which the hook reads as false.
\<close>

definition hasBlueprintLeaks :: "WorkerEnv \<Rightarrow> string \<Rightarrow> MapStyle \<Rightarrow> thrown + LeakDetectionResult" where
  "hasBlueprintLeaks env mapImageSrc mapStyle =
     (if workerCrashes env then Inr \<lparr>needsRefinement = False, leakMapUrl = None\<rparr>
      else
        (case styleThresholds mapStyle of
           (clusterSizeThreshold, colorMatchThresholdSq, flatnessThresholdSq) \<Rightarrow>
             (case workerOnMessage env
                     (DetectLeaks mapImageSrc getBlueprintColorsRGB clusterSizeThreshold
                        colorMatchThresholdSq flatnessThresholdSq) of
                ErrorReply msg \<Rightarrow> Inl (ErrorObj msg)
              | LeakReply result leakMapUrl' \<Rightarrow>
                  Inr \<lparr>needsRefinement = result, leakMapUrl = orNull leakMapUrl'\<rparr>
              | DiffReply diffMapUrl \<Rightarrow> Inr \<lparr>needsRefinement = False, leakMapUrl = None\<rparr>)))"

text \<open>\<open>generateDiffMap\<close>: its promise only ever resolves.\<close>

definition generateDiffMap :: "WorkerEnv \<Rightarrow> string \<Rightarrow> string \<Rightarrow> string option" where
  "generateDiffMap env imageBase imageNew =
     (if workerCrashes env then None
      else
        (case workerOnMessage env (GenerateDiff imageBase imageNew 100) of
           ErrorReply msg \<Rightarrow> None
         | DiffReply diffMapUrl \<Rightarrow> orNull diffMapUrl
         | LeakReply result leakMapUrl' \<Rightarrow> None))"

section \<open>The clusters, as the specification describes them\<close>

text \<open>
  Two pixels of the bitmap are neighbors when each lies in the square window of radius
  \<open>searchRadius\<close> around the other. A cluster is the set of the leak pixels connected to a
  leak pixel through neighboring leak pixels.
\<close>

definition windowAdjacent :: "nat \<Rightarrow> nat \<Rightarrow> nat \<Rightarrow> nat \<Rightarrow> bool" where
  "windowAdjacent w h p q =
     (p < w * h \<and> q < w * h \<and> p \<noteq> q
      \<and> \<bar>int (p mod w) - int (q mod w)\<bar> \<le> searchRadius
      \<and> \<bar>int (p div w) - int (q div w)\<bar> \<le> searchRadius)"

definition leakEdges :: "nat \<Rightarrow> nat \<Rightarrow> nat set \<Rightarrow> (nat \<times> nat) set" where
  "leakEdges w h leaks = {(p, q). p \<in> leaks \<and> q \<in> leaks \<and> windowAdjacent w h p q}"

definition clusterOf :: "nat \<Rightarrow> nat \<Rightarrow> nat set \<Rightarrow> nat \<Rightarrow> nat set" where
  "clusterOf w h leaks p = {q. (p, q) \<in> (leakEdges w h leaks)\<^sup>*}"

text \<open>The coordinates of the pixels of a set, and the shape test on a set of pixels.\<close>

definition pointOf :: "nat \<Rightarrow> nat \<Rightarrow> point" where
  "pointOf w i = (int (i mod w), int (i div w))"

definition pointsOf :: "nat \<Rightarrow> nat set \<Rightarrow> point list" where
  "pointsOf w C = map (pointOf w) (sorted_list_of_set C)"

definition solidBlob :: "nat \<Rightarrow> int \<Rightarrow> nat set \<Rightarrow> bool" where
  "solidBlob w clusterSizeThreshold C =
     (int (card C) > clusterSizeThreshold
      \<and> length (getConvexHull (pointsOf w C)) \<ge> 3
      \<and> polygonArea (getConvexHull (pointsOf w C)) > 0
      \<and> of_nat (card C) / polygonArea (getConvexHull (pointsOf w C)) > SOLIDITY_THRESHOLD)"

section \<open>The flat regions, as the specification describes them\<close>

text \<open>
  Two pixels of the bitmap are 4-neighbors: they are next to each other in a row or in a
  column.
\<close>

definition fourAdjacent :: "nat \<Rightarrow> nat \<Rightarrow> nat \<Rightarrow> nat \<Rightarrow> bool" where
  "fourAdjacent w h p q =
     (p < w * h \<and> q < w * h
      \<and> ((p div w = q div w \<and> (p mod w = q mod w + 1 \<or> q mod w = p mod w + 1))
         \<or> (p mod w = q mod w \<and> (p div w = q div w + 1 \<or> q div w = p div w + 1))))"

text \<open>The flatness test: the color of pixel \<open>q\<close> is nearer to that of pixel \<open>s\<close> than the threshold.\<close>

definition flatTo :: "ImageData \<Rightarrow> int \<Rightarrow> nat \<Rightarrow> nat \<Rightarrow> bool" where
  "flatTo img flatnessThresholdSq s q =
     (colorDistanceSq (data img (s * 4)) (data img (s * 4 + 1)) (data img (s * 4 + 2))
        (data img (q * 4)) (data img (q * 4 + 1)) (data img (q * 4 + 2))
      < flatnessThresholdSq)"

text \<open>
  A flat-color region in the plain sense: the pixels that a pixel \<open>p\<close> reaches through
  4-neighbors, each step between two pixels whose colors pass the flatness test.
\<close>

definition flatEdges :: "ImageData \<Rightarrow> int \<Rightarrow> (nat \<times> nat) set" where
  "flatEdges img flatnessThresholdSq =
     {(p, q). fourAdjacent (width img) (height img) p q \<and> flatTo img flatnessThresholdSq p q}"

definition flatRegionOf :: "ImageData \<Rightarrow> int \<Rightarrow> nat \<Rightarrow> nat set" where
  "flatRegionOf img flatnessThresholdSq p = {q. (p, q) \<in> (flatEdges img flatnessThresholdSq)\<^sup>*}"

text \<open>
  The region of a seed pixel \<open>s\<close> when the pixels of \<open>taken\<close> belong to other regions already:
  the pixels that \<open>s\<close> reaches through 4-neighbors, stepping only onto pixels that are not
  taken and whose color passes the flatness test against the color of \<open>s\<close>.
\<close>

definition seedEdges :: "ImageData \<Rightarrow> int \<Rightarrow> nat set \<Rightarrow> nat \<Rightarrow> (nat \<times> nat) set" where
  "seedEdges img flatnessThresholdSq taken s =
     {(p, q). fourAdjacent (width img) (height img) p q \<and> q \<notin> taken
              \<and> flatTo img flatnessThresholdSq s q}"

definition seedRegion :: "ImageData \<Rightarrow> int \<Rightarrow> nat set \<Rightarrow> nat \<Rightarrow> nat set" where
  "seedRegion img flatnessThresholdSq taken s =
     {q. (s, q) \<in> (seedEdges img flatnessThresholdSq taken s)\<^sup>*}"

text \<open>
  The regions of a bitmap in scan order: going through the first \<open>n\<close> pixels, each pixel that
  is in no region yet is the seed of the next region. The result is the set of the pixels
  taken so far and the regions, in order.
\<close>

primrec flatScan :: "ImageData \<Rightarrow> int \<Rightarrow> nat \<Rightarrow> nat set \<times> nat set list" where
  "flatScan img flatnessThresholdSq 0 = ({}, [])"
| "flatScan img flatnessThresholdSq (Suc i) =
     (case flatScan img flatnessThresholdSq i of
        (taken, regions) \<Rightarrow>
          if i \<in> taken then (taken, regions)
          else (taken \<union> seedRegion img flatnessThresholdSq taken i,
                regions @ [seedRegion img flatnessThresholdSq taken i]))"

definition flatRegions :: "ImageData \<Rightarrow> int \<Rightarrow> nat set list" where
  "flatRegions img flatnessThresholdSq =
     snd (flatScan img flatnessThresholdSq (width img * height img))"

section \<open>The diff, as the specification describes it\<close>

text \<open>Pixel \<open>p\<close> differs: its squared RGB distance between the two bitmaps exceeds the threshold.\<close>

definition pixelDiffers :: "ImageData \<Rightarrow> ImageData \<Rightarrow> int \<Rightarrow> nat \<Rightarrow> bool" where
  "pixelDiffers imgBase imgNew diffThresholdSq p =
     (colorDistanceSq (data imgBase (p * 4)) (data imgBase (p * 4 + 1)) (data imgBase (p * 4 + 2))
        (data imgNew (p * 4)) (data imgNew (p * 4 + 1)) (data imgNew (p * 4 + 2))
      > diffThresholdSq)"

text \<open>
  The overlay cannot be delivered: a canvas context is missing, the PNG encoding throws, or
  the reader fails.
\<close>

definition overlayFails :: "WorkerEnv \<Rightarrow> ImageData \<Rightarrow> bool" where
  "overlayFails env overlay =
     (\<not> (getContext env 0 \<and> getContext env 1 \<and> getContext env 2)
      \<or> (case convertToBlob env overlay of
            Inl err \<Rightarrow> True
          | Inr blob \<Rightarrow> readAsDataURL env blob = None))"

section \<open>Auxiliary notions for the proofs\<close>

text \<open>
  The points of a \<open>w\<close> by \<open>h\<close> grid in the order in which the hull code sorts them (by
  \<open>x\<close>, then by \<open>y\<close>); the stack of \<open>buildHull\<close> after the first \<open>j + 1\<close> of them; and the
  point reflection that maps the grid to itself.
\<close>

definition colMajor :: "nat \<Rightarrow> nat \<Rightarrow> point list" where
  "colMajor w h = map (\<lambda>k. (int (k div h), int (k mod h))) [0..<w * h]"

definition hullState :: "nat \<Rightarrow> nat \<Rightarrow> point list" where
  "hullState h j =
     (let x = int (j div h); y = int (j mod h)
      in if x = 0 then (if y = 0 then [(0, 0)] else [(0, 0), (0, y)])
         else (if y = 0 then [(0, 0), (x, 0)] else [(0, 0), (x, 0), (x, y)]))"

definition reflectPoint :: "int \<Rightarrow> int \<Rightarrow> point \<Rightarrow> point" where
  "reflectPoint a b p = (a - fst p, b - snd p)"

section \<open>Sample inputs\<close>

text \<open>
  Surroundings in which every external call succeeds and the detector answers \<open>leaky\<close>. No
  call throws, so no message is ever examined; the case mapping is given on ASCII text.
\<close>

definition demoEnv :: "bool \<Rightarrow> unit Environment" where
  "demoEnv leaky =
     \<lparr>toLowerCase = map (\<lambda>u. if 65 \<le> u \<and> u \<le> 90 then u + 32 else u),
      createAiClient = (\<lambda>key. Inr ()),
      generatePromptWithLegend = (\<lambda>style. ''prompt''),
      awaitGenerateMapFromDrawing = (\<lambda>client blueprint prompt. Inr ''map1''),
      awaitRefineGeneratedMap = (\<lambda>n client image style. Inr ''map2''),
      awaitHasBlueprintLeaks = (\<lambda>n image style. Inr \<lparr>needsRefinement = leaky, leakMapUrl = Some ''leaks''\<rparr>),
      awaitGenerateDiffMap = (\<lambda>n before after. Some ''diff'')\<rparr>"

text \<open>The API key "key" as code units.\<close>

definition demoKey :: "nat list" where
  "demoKey = [107, 101, 121]"

definition demoDone :: HookState where
  "demoDone =
     \<lparr>isLoading = False, loadingMessage = [], error = None, generatedImage = Some ''map1'',
      blueprintImage = Some ''bp'',
      analysisHistory =
        [\<lparr>revision = 1, mapImage = ''map1'', aiChangeMap = None, leakMap = Some ''leaks'',
          passed = False, isFinal = True, finalReason = Some LimitReached, isManual = None\<rparr>]\<rparr>"

text \<open>A bitmap of one color, opaque.\<close>

definition solidImage :: "nat \<Rightarrow> nat \<Rightarrow> int \<times> int \<times> int \<Rightarrow> ImageData" where
  "solidImage w h c =
     (case c of (r, g, b) \<Rightarrow>
        \<lparr>width = w, height = h, data = (\<lambda>i. [r, g, b, 255] ! (i mod 4))\<rparr>)"

text \<open>
  A bitmap of 3 x 1 pixels, opaque, whose red channel is 0, 2 and 4 and whose green and
  blue channels are 0.
\<close>

definition gradientImage :: ImageData where
  "gradientImage =
     \<lparr>width = 3, height = 1,
      data = (\<lambda>i. if i < 12 then [0, 0, 0, 255, 2, 0, 0, 255, 4, 0, 0, 255] ! i else 0)\<rparr>"

text \<open>
  Surroundings in which the listed data URLs decode to the listed bitmaps and every other
  one fails to decode, every canvas has a context, the encoder works, and the reader works
  or not as told.
\<close>

definition demoWorker :: "(string \<times> ImageData) list \<Rightarrow> bool \<Rightarrow> WorkerEnv" where
  "demoWorker images readerWorks =
     \<lparr>loadImage = (\<lambda>src. case map_of images src of
                            Some img \<Rightarrow> Inr img
                          | None \<Rightarrow> Inl (ErrorObj (units ''The source image could not be decoded.''))),
      getContext = (\<lambda>k. True),
      convertToBlob = (\<lambda>overlay. Inr ''png''),
      readAsDataURL = (\<lambda>blob. if readerWorks then Some (''data:image/png;base64,'' @ blob) else None),
      workerCrashes = False\<rparr>"

section \<open>Properties of the refinement controller\<close>

lemma refinementLoop_consistent:
  "list_all reasonConsistent h \<Longrightarrow>
   list_all reasonConsistent
     (snd (snd (snd (refinementLoop env c st m (k, u, p, h)))))"
proof (induction env c st m "(k, u, p, h)" arbitrary: k u p h rule: refinementLoop.induct)
  case (1 env c st m k u p h)
  show ?case
    apply (subst refinementLoop.simps)
    using 1
    by (auto simp: Let_def reasonConsistent_def split: sum.splits)
qed

text \<open>
  The loop only appends: the histories that \<open>setAnalysisHistory\<close> publishes while a run is
  in progress are prefixes of the history the run ends with.
\<close>

lemma refinementLoop_extends:
  "\<exists>ys. snd (snd (snd (refinementLoop env c st m (k, u, p, h)))) = h @ ys"
proof (induction env c st m "(k, u, p, h)" arbitrary: k u p h rule: refinementLoop.induct)
  case (1 env c st m k u p h)
  show ?case
  proof (cases "\<not> p \<and> k < m")
    case False
    then show ?thesis by (subst refinementLoop.simps) auto
  next
    case True
    show ?thesis
    proof (cases "awaitRefineGeneratedMap env (nat (k + 1)) c u st")
      case (Inl err)
      with True show ?thesis by (subst refinementLoop.simps) (simp add: Let_def)
    next
      case (Inr u')
      show ?thesis
      proof (cases "awaitHasBlueprintLeaks env (nat (k + 1)) u' st")
        case (Inl err)
        with True Inr show ?thesis by (subst refinementLoop.simps) (simp add: Let_def)
      next
        case r: (Inr res)
        from "1.hyps"[OF True refl refl Inr refl r refl refl]
        obtain ys where "snd (snd (snd (refinementLoop env c st m
            (k + 1, u', \<not> needsRefinement res,
             h @ [\<lparr>revision = k + 1 + 1, mapImage = u',
                    aiChangeMap = awaitGenerateDiffMap env (nat (k + 1)) u u',
                    leakMap = leakMapUrl res, passed = \<not> needsRefinement res,
                    isFinal = (\<not> needsRefinement res \<or> m \<le> k + 1),
                    finalReason =
                      (if \<not> needsRefinement res \<or> m \<le> k + 1
                       then Some (if \<not> needsRefinement res then Passed else LimitReached)
                       else None),
                    isManual = None\<rparr>])))) = (h @ [\<lparr>revision = k + 1 + 1, mapImage = u',
                    aiChangeMap = awaitGenerateDiffMap env (nat (k + 1)) u u',
                    leakMap = leakMapUrl res, passed = \<not> needsRefinement res,
                    isFinal = (\<not> needsRefinement res \<or> m \<le> k + 1),
                    finalReason =
                      (if \<not> needsRefinement res \<or> m \<le> k + 1
                       then Some (if \<not> needsRefinement res then Passed else LimitReached)
                       else None),
                    isManual = None\<rparr>]) @ ys"
          by blast
        with True Inr r show ?thesis
          by (subst refinementLoop.simps) (simp add: Let_def)
      qed
    qed
  qed
qed

lemma refinementLoop_consistentD:
  "refinementLoop env c st m (k, u, p, h) = (e, u', p', h') \<Longrightarrow>
   list_all reasonConsistent h \<Longrightarrow> list_all reasonConsistent h'"
  using refinementLoop_consistent[of h env c st m k u p] by simp

lemma generateMap_consistent:
  assumes "list_all reasonConsistent (analysisHistory s)"
  shows "list_all reasonConsistent (analysisHistory (generateMap env vs bp k st m s))"
proof -
  have loop: "list_all reasonConsistent h'"
    if "refinementLoop env c st m' (0, u, b,
          [\<lparr>revision = 1, mapImage = u, aiChangeMap = None, leakMap = lm, passed = b,
            isFinal = f, finalReason = fr, isManual = None\<rparr>]) = (e, u', p', h')"
      and "fr = Some Passed \<longrightarrow> b" and "fr = Some LimitReached \<longrightarrow> \<not> b"
    for c u lm b f e u' p' h' fr m'
    by (rule refinementLoop_consistentD[OF that(1)]) (simp add: reasonConsistent_def that)
  show ?thesis
    using assms
    by (auto simp add: generateMap_def Let_def split: sum.splits prod.splits option.splits
             dest!: loop)
qed

lemma clearLastFinal_consistent:
  "list_all reasonConsistent h \<Longrightarrow> list_all reasonConsistent (clearLastFinal h)"
proof -
  assume a: "list_all reasonConsistent h"
  show ?thesis
  proof (cases "h \<noteq> [] \<and> isFinal (last h)")
    case True
    then have "h = butlast h @ [last h]" by simp
    with a have "list_all reasonConsistent (butlast h)"
      by (metis list_all_append)
    then show ?thesis using True by (simp add: clearLastFinal_def reasonConsistent_def)
  next
    case False
    then show ?thesis using a by (auto simp add: clearLastFinal_def)
  qed
qed

lemma manualRefine_consistent:
  "list_all reasonConsistent (analysisHistory s) \<Longrightarrow>
   list_all reasonConsistent (analysisHistory (manualRefine env k st s))"
  using clearLastFinal_consistent[of "analysisHistory s"]
  by (auto simp add: manualRefine_def Let_def reasonConsistent_def split: sum.splits option.splits)

lemma reachable_consistent:
  "reachable T s \<Longrightarrow> list_all reasonConsistent (analysisHistory s)"
proof (induction rule: reachable.induct)
  case reach_init
  then show ?case by (simp add: initialState_def)
next
  case (reach_generate s env vectorObjects blueprintData apiKey mapStyle maxRefinements)
  from reach_generate.IH show ?case by (rule generateMap_consistent)
next
  case (reach_manual s env apiKey mapStyle)
  from reach_manual.IH show ?case by (rule manualRefine_consistent)
next
  case (reach_clear s)
  then show ?case by (simp add: clearGeneration_def)
qed

text \<open>
  Claim C9. In every state the hook can reach, each record of the history (appended by the
  initial analysis, by the refinement loop or by a manual refinement) has
  \<open>finalReason = 'passed'\<close> only if \<open>passed\<close> is true, and \<open>finalReason = 'limit_reached'\<close>
  only if \<open>passed\<close> is false.
\<close>

theorem C9_final_reason_matches_passed:
  assumes "reachable TYPE('c Environment) s" and "r \<in> set (analysisHistory s)"
  shows "(finalReason r = Some Passed \<longrightarrow> passed r) \<and>
         (finalReason r = Some LimitReached \<longrightarrow> \<not> passed r)"
  using reachable_consistent[OF assms(1)] assms(2)
  by (auto simp: list_all_iff reasonConsistent_def)

text \<open>
  Claim C7. A completed run has left a non-empty history whose last record is final and a
  final image; no loop is in flight. A manual refinement whose client, refine call and
  analysis succeed leaves a history one record longer: the records before the new one are
  the old ones, the old last one with \<open>isFinal\<close> false and \<open>finalReason\<close> cleared; the new
  record has \<open>isManual = true\<close> and \<open>isFinal = true\<close> whatever the analysis said.
\<close>

theorem C7_manual_refine_appends_one:
  assumes "analysisHistory s \<noteq> []"
    and "isFinal (last (analysisHistory s))"
    and "generatedImage s = Some previousMapUrl" and "previousMapUrl \<noteq> []"
    and "\<not> isLoading s"
    and "trim apiKey \<noteq> []"
    and "createAiClient env (trim apiKey) = Inr aiClient"
    and "awaitRefineGeneratedMap env 0 aiClient previousMapUrl mapStyle = Inr currentMapUrl"
    and "awaitHasBlueprintLeaks env 0 currentMapUrl mapStyle = Inr analysisResult"
  shows "length (analysisHistory (manualRefine env apiKey mapStyle s))
           = length (analysisHistory s) + 1
       \<and> butlast (analysisHistory (manualRefine env apiKey mapStyle s))
           = butlast (analysisHistory s)
               @ [(last (analysisHistory s))\<lparr>isFinal := False, finalReason := None\<rparr>]
       \<and> isManual (last (analysisHistory (manualRefine env apiKey mapStyle s))) = Some True
       \<and> isFinal (last (analysisHistory (manualRefine env apiKey mapStyle s)))
       \<and> passed (last (analysisHistory (manualRefine env apiKey mapStyle s)))
           = (\<not> needsRefinement analysisResult)"
  using assms by (simp add: manualRefine_def Let_def clearLastFinal_def butlast_append)


lemma trim_key: "trim demoKey = demoKey"
  by (simp add: trim_def isWhiteSpace_def demoKey_def)

lemma demoKey_not_empty: "demoKey \<noteq> []"
  by (simp add: demoKey_def)

lemma demo_generate:
  "generateMap (demoEnv True) [()] ''bp'' demoKey Photorealistic 0 initialState = demoDone"
  by (simp add: generateMap_def trim_key demoKey_not_empty demoEnv_def Let_def
        refinementLoop.simps initialState_def demoDone_def)

theorem C9_final_reason_matches_passed_witness:
  "reachable TYPE(unit Environment) demoDone
   \<and> hd (analysisHistory demoDone) \<in> set (analysisHistory demoDone)
   \<and> finalReason (hd (analysisHistory demoDone)) = Some LimitReached
   \<and> \<not> passed (hd (analysisHistory demoDone))"
proof -
  have r: "reachable TYPE(unit Environment) demoDone"
    using reach_generate[OF reach_init, of "demoEnv True" "[()]" "''bp''" demoKey Photorealistic 0]
    by (simp only: demo_generate)
  have m: "hd (analysisHistory demoDone) \<in> set (analysisHistory demoDone)"
    by (simp add: demoDone_def)
  have f: "finalReason (hd (analysisHistory demoDone)) = Some LimitReached"
    by (simp add: demoDone_def)
  show ?thesis
    using r m f C9_final_reason_matches_passed[OF r m] by simp
qed

theorem C7_manual_refine_appends_one_witness:
  "analysisHistory demoDone \<noteq> [] \<and> isFinal (last (analysisHistory demoDone))
   \<and> generatedImage demoDone = Some ''map1'' \<and> \<not> isLoading demoDone
   \<and> trim demoKey \<noteq> []
   \<and> createAiClient (demoEnv True) (trim demoKey) = Inr ()
   \<and> awaitRefineGeneratedMap (demoEnv True) 0 () ''map1'' Photorealistic = Inr ''map2''
   \<and> awaitHasBlueprintLeaks (demoEnv True) 0 ''map2'' Photorealistic
        = Inr \<lparr>needsRefinement = True, leakMapUrl = Some ''leaks''\<rparr>
   \<and> length (analysisHistory (manualRefine (demoEnv True) demoKey Photorealistic demoDone))
        = length (analysisHistory demoDone) + 1
   \<and> butlast (analysisHistory (manualRefine (demoEnv True) demoKey Photorealistic demoDone))
        = butlast (analysisHistory demoDone)
            @ [(last (analysisHistory demoDone))\<lparr>isFinal := False, finalReason := None\<rparr>]
   \<and> isManual (last (analysisHistory (manualRefine (demoEnv True) demoKey Photorealistic demoDone)))
        = Some True
   \<and> isFinal (last (analysisHistory (manualRefine (demoEnv True) demoKey Photorealistic demoDone)))
   \<and> \<not> passed (last (analysisHistory (manualRefine (demoEnv True) demoKey Photorealistic demoDone)))"
proof -
  have h: "analysisHistory demoDone \<noteq> []" "isFinal (last (analysisHistory demoDone))"
    "generatedImage demoDone = Some ''map1''" "''map1'' \<noteq> []" "\<not> isLoading demoDone"
    "trim demoKey \<noteq> []" "createAiClient (demoEnv True) (trim demoKey) = Inr ()"
    "awaitRefineGeneratedMap (demoEnv True) 0 () ''map1'' Photorealistic = Inr ''map2''"
    "awaitHasBlueprintLeaks (demoEnv True) 0 ''map2'' Photorealistic
       = Inr \<lparr>needsRefinement = True, leakMapUrl = Some ''leaks''\<rparr>"
    by (simp_all add: demoDone_def demoEnv_def trim_key demoKey_not_empty)
  from C7_manual_refine_appends_one[OF h] h
  show ?thesis by simp
qed

section \<open>Correctness of the cluster analysis\<close>

subsection \<open>The window and the neighbors\<close>


lemma windowOffsets_iff:
  "(nx, ny) \<in> set windowOffsets \<longleftrightarrow>
     - 3 \<le> nx \<and> nx \<le> 3 \<and> - 3 \<le> ny \<and> ny \<le> 3 \<and> \<not> (nx = 0 \<and> ny = 0)"
proof -
  have s: "set windowOffsets
          = (\<Union>b\<in>{- 3..3}. \<Union>a\<in>{- 3..3}. set (if a = 0 \<and> b = 0 then [] else [(a, b)]))"
    unfolding windowOffsets_def searchRadius_def set_concat set_map image_image set_upto ..
  show ?thesis
  proof
    assume "(nx, ny) \<in> set windowOffsets"
    then show "- 3 \<le> nx \<and> nx \<le> 3 \<and> - 3 \<le> ny \<and> ny \<le> 3 \<and> \<not> (nx = 0 \<and> ny = 0)"
      unfolding s by (auto split: if_splits)
  next
    assume a: "- 3 \<le> nx \<and> nx \<le> 3 \<and> - 3 \<le> ny \<and> ny \<le> 3 \<and> \<not> (nx = 0 \<and> ny = 0)"
    then have "(nx, ny) \<in> set (if nx = 0 \<and> ny = 0 then [] else [(nx, ny)])" by simp
    moreover have "nx \<in> {- 3..3}" "ny \<in> {- 3..3}" using a by simp_all
    ultimately show "(nx, ny) \<in> set windowOffsets"
      unfolding s by blast
  qed
qed

lemma index_decode:
  fixes cx cy :: int
  assumes "0 \<le> cx" "cx < int w" "0 \<le> cy"
  shows "nat (cy * int w + cx) mod w = nat cx" "nat (cy * int w + cx) div w = nat cy"
proof -
  have e: "nat (cy * int w + cx) = nat cy * w + nat cx"
    using assms by (simp add: nat_add_distrib nat_mult_distrib)
  have "nat cx < w" using assms by simp
  then show "nat (cy * int w + cx) mod w = nat cx" "nat (cy * int w + cx) div w = nat cy"
    unfolding e by simp_all
qed

lemma clusterNeighbors_iff:
  assumes "cur < w * h"
  shows "q \<in> set (clusterNeighbors w h cur) \<longleftrightarrow> windowAdjacent w h cur q"
proof
  assume "q \<in> set (clusterNeighbors w h cur)"
  then obtain nx ny where
    q: "q = nat ((int (cur div w) + ny) * int w + (int (cur mod w) + nx))"
    and b: "0 \<le> int (cur mod w) + nx" "int (cur mod w) + nx < int w"
           "0 \<le> int (cur div w) + ny" "int (cur div w) + ny < int h"
    and o: "(nx, ny) \<in> set windowOffsets"
    by (auto simp: clusterNeighbors_def Let_def)
  have qm: "q mod w = nat (int (cur mod w) + nx)" and qd: "q div w = nat (int (cur div w) + ny)"
    unfolding q using index_decode[OF b(1) b(2) b(3)] by simp_all
  have "q < w * h"
    using \<open>q \<in> set (clusterNeighbors w h cur)\<close> by (rule clusterNeighbors_in_range)
  moreover have "cur \<noteq> q"
  proof
    assume "cur = q"
    then have "int (cur mod w) = int (cur mod w) + nx" "int (cur div w) = int (cur div w) + ny"
      using qm qd b by simp_all
    then show False using o by (simp add: windowOffsets_iff)
  qed
  moreover have "\<bar>int (cur mod w) - int (q mod w)\<bar> \<le> 3" "\<bar>int (cur div w) - int (q div w)\<bar> \<le> 3"
    using qm qd b o by (auto simp: windowOffsets_iff)
  ultimately show "windowAdjacent w h cur q"
    using assms by (simp add: windowAdjacent_def searchRadius_def)
next
  assume a: "windowAdjacent w h cur q"
  define nx where "nx = int (q mod w) - int (cur mod w)"
  define ny where "ny = int (q div w) - int (cur div w)"
  from a have qn: "q < w * h" and ne: "cur \<noteq> q"
    and dx: "\<bar>int (cur mod w) - int (q mod w)\<bar> \<le> 3" and dy: "\<bar>int (cur div w) - int (q div w)\<bar> \<le> 3"
    by (simp_all add: windowAdjacent_def searchRadius_def)
  have w0: "0 < w" using assms by (cases w) auto
  have "(nx, ny) \<noteq> (0, 0)"
  proof
    assume "(nx, ny) = (0, 0)"
    then have "q mod w = cur mod w" "q div w = cur div w" by (simp_all add: nx_def ny_def)
    then have "q = cur" by (metis div_mult_mod_eq)
    with ne show False by simp
  qed
  then have o: "(nx, ny) \<in> set windowOffsets"
    using dx dy by (auto simp: windowOffsets_iff nx_def ny_def)
  have qdh: "q div w < h" using qn w0 by (simp add: less_mult_imp_div_less mult.commute)
  have b: "0 \<le> int (cur mod w) + nx" "int (cur mod w) + nx < int w"
          "0 \<le> int (cur div w) + ny" "int (cur div w) + ny < int h"
    using w0 qdh by (simp_all add: nx_def ny_def)
  have "q = nat ((int (cur div w) + ny) * int w + (int (cur mod w) + nx))"
  proof -
    have "(int (cur div w) + ny) * int w + (int (cur mod w) + nx)
            = int (q div w) * int w + int (q mod w)"
      by (simp add: nx_def ny_def)
    also have "\<dots> = int (q div w * w + q mod w)"
      by (simp only: of_nat_add of_nat_mult)
    also have "\<dots> = int q" by simp
    finally show ?thesis by simp
  qed
  with o b show "q \<in> set (clusterNeighbors w h cur)"
    unfolding clusterNeighbors_def Let_def set_map
    by (intro image_eqI[where x="(nx, ny)"]) simp_all
qed

lemma fold_clusterVisit:
  "\<exists>new. fold (clusterVisit leaks) nbrs (v, q) = (v \<union> (set nbrs \<inter> leaks), q @ new)
         \<and> set new = set nbrs \<inter> leaks - v \<and> distinct new"
proof (induction nbrs arbitrary: v q)
  case Nil
  then show ?case by simp
next
  case (Cons nb nbrs)
  show ?case
  proof (cases "nb \<in> leaks \<and> nb \<notin> v")
    case True
    from Cons.IH[of "insert nb v" "q @ [nb]"] obtain new where
      f: "fold (clusterVisit leaks) nbrs (insert nb v, q @ [nb])
            = (insert nb v \<union> (set nbrs \<inter> leaks), (q @ [nb]) @ new)"
      and s: "set new = set nbrs \<inter> leaks - insert nb v" and d: "distinct new"
      by blast
    have "fold (clusterVisit leaks) (nb # nbrs) (v, q)
            = (v \<union> (set (nb # nbrs) \<inter> leaks), q @ (nb # new))"
      using True f by (auto simp: clusterVisit_def)
    moreover have "set (nb # new) = set (nb # nbrs) \<inter> leaks - v" using True s by auto
    moreover have "distinct (nb # new)" using s d by auto
    ultimately show ?thesis by blast
  next
    case False
    from Cons.IH[of v q] obtain new where
      f: "fold (clusterVisit leaks) nbrs (v, q) = (v \<union> (set nbrs \<inter> leaks), q @ new)"
      and s: "set new = set nbrs \<inter> leaks - v" and d: "distinct new"
      by blast
    have "fold (clusterVisit leaks) (nb # nbrs) (v, q)
            = (v \<union> (set (nb # nbrs) \<inter> leaks), q @ new)"
      using False f by (auto simp: clusterVisit_def)
    moreover have "set new = set (nb # nbrs) \<inter> leaks - v" using False s by auto
    ultimately show ?thesis using d by blast
  qed
qed


lemma windowAdjacent_sym: "windowAdjacent w h p q \<Longrightarrow> windowAdjacent w h q p"
  by (auto simp: windowAdjacent_def abs_minus_commute)

lemma leakEdges_sym: "(p, q) \<in> leakEdges w h leaks \<Longrightarrow> (q, p) \<in> leakEdges w h leaks"
  by (auto simp: leakEdges_def intro: windowAdjacent_sym)

lemma leakEdges_rtrancl_sym:
  "(p, q) \<in> (leakEdges w h leaks)\<^sup>* \<Longrightarrow> (q, p) \<in> (leakEdges w h leaks)\<^sup>*"
proof (induction rule: rtrancl_induct)
  case base
  then show ?case by simp
next
  case (step y z)
  from step.hyps(2) have "(z, y) \<in> leakEdges w h leaks" by (rule leakEdges_sym)
  with step.IH show ?case by (meson converse_rtrancl_into_rtrancl)
qed

lemma clusterOf_refl: "p \<in> clusterOf w h leaks p"
  by (simp add: clusterOf_def)

lemma clusterOf_step:
  "q \<in> clusterOf w h leaks p \<Longrightarrow> (q, r) \<in> leakEdges w h leaks \<Longrightarrow> r \<in> clusterOf w h leaks p"
  by (auto simp: clusterOf_def intro: rtrancl_into_rtrancl)

lemma clusterOf_eq:
  assumes "q \<in> clusterOf w h leaks p"
  shows "clusterOf w h leaks q = clusterOf w h leaks p"
proof -
  from assms have pq: "(p, q) \<in> (leakEdges w h leaks)\<^sup>*" by (simp add: clusterOf_def)
  then have qp: "(q, p) \<in> (leakEdges w h leaks)\<^sup>*" by (rule leakEdges_rtrancl_sym)
  show ?thesis
    unfolding clusterOf_def using pq qp by (auto intro: rtrancl_trans)
qed

lemma clusterOf_subset:
  assumes "p \<in> leaks" "p < w * h"
  shows "clusterOf w h leaks p \<subseteq> leaks \<inter> {..<w * h}"
proof
  fix q assume "q \<in> clusterOf w h leaks p"
  then have "(p, q) \<in> (leakEdges w h leaks)\<^sup>*" by (simp add: clusterOf_def)
  then show "q \<in> leaks \<inter> {..<w * h}"
    using assms by (cases rule: rtranclE) (auto simp: leakEdges_def windowAdjacent_def)
qed

lemma neighbors_are_edges:
  assumes "cur \<in> leaks" "cur < w * h"
  shows "q \<in> set (clusterNeighbors w h cur) \<inter> leaks \<longleftrightarrow> (cur, q) \<in> leakEdges w h leaks"
  using assms clusterNeighbors_iff[OF assms(2), of q] by (auto simp: leakEdges_def)

lemma clusterFill_inv:
  "\<lbrakk>\<forall>p q. (p, q) \<in> leakEdges w h leaks \<longrightarrow> (p \<in> V0 \<longleftrightarrow> q \<in> V0);
    V = V0 \<union> set D \<union> set Q;
    distinct (D @ Q);
    set (D @ Q) \<inter> V0 = {};
    set (D @ Q) \<subseteq> clusterOf w h leaks i;
    set (D @ Q) \<subseteq> leaks \<inter> {..<w * h};
    \<forall>p\<in>set D. \<forall>q. (p, q) \<in> leakEdges w h leaks \<longrightarrow> q \<in> V;
    i \<in> set (D @ Q)\<rbrakk>
   \<Longrightarrow> \<exists>Dn. clusterFill w h leaks (V, Q, P)
                = (V0 \<union> clusterOf w h leaks i, P @ map (pointOf w) Dn)
            \<and> distinct (D @ Dn) \<and> set (D @ Dn) = clusterOf w h leaks i"
proof (induction w h leaks "(V, Q, P)" arbitrary: V Q P D rule: clusterFill.induct)
  case (1 w h leaks V Q P)
  note closed = "1.prems"(1) and V = "1.prems"(2) and dist = "1.prems"(3)
    and disj = "1.prems"(4) and sub = "1.prems"(5) and rng = "1.prems"(6)
    and nbd = "1.prems"(7) and start = "1.prems"(8)
  show ?case
  proof (cases Q)
    case Nil
    have "clusterOf w h leaks i \<subseteq> set D"
    proof
      fix q assume "q \<in> clusterOf w h leaks i"
      then have "(i, q) \<in> (leakEdges w h leaks)\<^sup>*" by (simp add: clusterOf_def)
      then show "q \<in> set D"
      proof (induction rule: rtrancl_induct)
        case base
        then show ?case using start Nil by simp
      next
        case (step y z)
        from step.IH step.hyps(2) nbd have "z \<in> V" by blast
        moreover have "z \<notin> V0"
        proof
          assume "z \<in> V0"
          with closed step.hyps(2) have "y \<in> V0" by blast
          with step.IH disj show False by auto
        qed
        ultimately show ?case using V Nil by auto
      qed
    qed
    with sub Nil have eq: "set D = clusterOf w h leaks i" by auto
    have "clusterFill w h leaks (V, Q, P) = (V, P)"
      using Nil by (simp add: clusterFill.simps)
    moreover have "V = V0 \<union> clusterOf w h leaks i" using V Nil eq by simp
    ultimately show ?thesis using eq dist Nil by (intro exI[where x="[]"]) simp
  next
    case (Cons cur rest)
    have cur: "cur \<in> leaks" "cur < w * h" "cur \<in> clusterOf w h leaks i"
      using rng sub Cons by auto
    obtain new where
      f: "fold (clusterVisit leaks) (clusterNeighbors w h cur) (V, rest)
            = (V \<union> (set (clusterNeighbors w h cur) \<inter> leaks), rest @ new)"
      and n: "set new = set (clusterNeighbors w h cur) \<inter> leaks - V" and dn: "distinct new"
      using fold_clusterVisit[of leaks "clusterNeighbors w h cur" V rest] by blast
    define V' where "V' = V \<union> (set (clusterNeighbors w h cur) \<inter> leaks)"
    have nE: "\<And>q. q \<in> set (clusterNeighbors w h cur) \<inter> leaks \<longleftrightarrow> (cur, q) \<in> leakEdges w h leaks"
      by (rule neighbors_are_edges[OF cur(1,2)])
    have newC: "set new \<subseteq> clusterOf w h leaks i"
      using n nE clusterOf_step[OF cur(3)] by blast
    have newR: "set new \<subseteq> leaks \<inter> {..<w * h}"
      using newC clusterOf_subset[of i leaks w h] start rng by blast
    have p2: "V' = V0 \<union> set (D @ [cur]) \<union> set (rest @ new)"
      using V n Cons by (auto simp: V'_def)
    have p3: "distinct ((D @ [cur]) @ rest @ new)"
      using dist dn n V Cons by auto
    have p4: "set ((D @ [cur]) @ rest @ new) \<inter> V0 = {}"
      using disj n V Cons by auto
    have p5: "set ((D @ [cur]) @ rest @ new) \<subseteq> clusterOf w h leaks i"
      using sub newC Cons by auto
    have p6: "set ((D @ [cur]) @ rest @ new) \<subseteq> leaks \<inter> {..<w * h}"
      using rng newR Cons by auto
    have p7: "\<forall>p\<in>set (D @ [cur]). \<forall>q. (p, q) \<in> leakEdges w h leaks \<longrightarrow> q \<in> V'"
      using nbd nE by (auto simp: V'_def)
    have p8: "i \<in> set ((D @ [cur]) @ rest @ new)"
      using start Cons by auto
    from "1.hyps"[OF Cons refl refl f[symmetric] closed p2[unfolded V'_def] p3 p4 p5 p6
                     p7[unfolded V'_def] p8]
    obtain Dn where
      r: "clusterFill w h leaks
            (V \<union> (set (clusterNeighbors w h cur) \<inter> leaks), rest @ new,
             P @ [(int (cur mod w), int (cur div w))])
          = (V0 \<union> clusterOf w h leaks i,
             (P @ [(int (cur mod w), int (cur div w))]) @ map (pointOf w) Dn)"
      and d: "distinct ((D @ [cur]) @ Dn)" and s: "set ((D @ [cur]) @ Dn) = clusterOf w h leaks i"
      by blast
    have "clusterFill w h leaks (V, Q, P)
            = (V0 \<union> clusterOf w h leaks i, P @ map (pointOf w) (cur # Dn))"
      using Cons f r by (subst clusterFill.simps) (simp add: Let_def pointOf_def)
    with d s show ?thesis by (intro exI[where x="cur # Dn"]) simp
  qed
qed

lemma clusterFill_correct:
  assumes closed: "\<forall>p q. (p, q) \<in> leakEdges w h leaks \<longrightarrow> (p \<in> V0 \<longleftrightarrow> q \<in> V0)"
    and i: "i \<in> leaks" "i < w * h" "i \<notin> V0"
  shows "\<exists>Ds. clusterFill w h leaks (insert i V0, [i], [])
                = (V0 \<union> clusterOf w h leaks i, map (pointOf w) Ds)
            \<and> distinct Ds \<and> set Ds = clusterOf w h leaks i"
  using clusterFill_inv[of w h leaks V0 "insert i V0" "[]" "[i]" i "[]"] closed i clusterOf_refl
  by auto

subsection \<open>Sorting, the hull and the outer loop\<close>


lemma comparePoints_le: "comparePoints a b \<le> 0 \<longleftrightarrow> a \<le> b"
  by (cases a; cases b) (auto simp: comparePoints_def less_eq_prod_def)

lemma insertPoint_insort: "insertPoint p qs = insort p qs"
  by (induction qs) (simp_all add: comparePoints_le)

lemma sortPoints_sort: "sortPoints points = sort points"
proof -
  have "insertPoint = insort" by (intro ext) (rule insertPoint_insort)
  then show ?thesis by (simp add: sortPoints_def sort_key_def)
qed

lemma sortPoints_unique:
  assumes "distinct xs" "distinct ys" "set xs = set ys"
  shows "sortPoints xs = sortPoints ys"
  unfolding sortPoints_sort
  by (rule sorted_distinct_set_unique) (simp_all add: assms)

lemma isBlob_cong:
  assumes "distinct xs" "distinct ys" "set xs = set ys"
  shows "isBlob T xs = isBlob T ys"
proof -
  have l: "length xs = length ys"
    using assms by (metis distinct_card)
  show ?thesis
  proof (cases "length xs \<le> 2")
    case True
    then show ?thesis using l by (simp add: isBlob_def getConvexHull_def Let_def)
  next
    case False
    then have "getConvexHull xs = getConvexHull ys"
      using l sortPoints_unique[OF assms] by (simp add: getConvexHull_def)
    then show ?thesis using l by (simp add: isBlob_def)
  qed
qed

lemma pointOf_inj: "0 < w \<Longrightarrow> inj (pointOf w)"
proof (rule injI)
  fix a b assume "0 < w" "pointOf w a = pointOf w b"
  then have "a mod w = b mod w" "a div w = b div w" by (simp_all add: pointOf_def)
  then show "a = b" by (metis div_mult_mod_eq)
qed

lemma isBlob_solidBlob:
  assumes "0 < w" "distinct D"
  shows "isBlob T (map (pointOf w) D) = solidBlob w T (set D)"
proof -
  have inj: "inj_on (pointOf w) A" for A
    using pointOf_inj[OF assms(1)] by (rule inj_on_subset) simp
  have 1: "distinct (map (pointOf w) D)" using assms(2) inj by (simp add: distinct_map)
  have 2: "distinct (pointsOf w (set D))" using inj by (simp add: pointsOf_def distinct_map)
  have 3: "set (map (pointOf w) D) = set (pointsOf w (set D))" by (simp add: pointsOf_def)
  have 4: "length (pointsOf w (set D)) = card (set D)"
    by (simp add: pointsOf_def)
  have "isBlob T (map (pointOf w) D) = isBlob T (pointsOf w (set D))"
    by (rule isBlob_cong[OF 1 2 3])
  also have "\<dots> = solidBlob w T (set D)"
    unfolding isBlob_def solidBlob_def Let_def 4 by auto
  finally show ?thesis .
qed

lemma clusterLoop_correct:
  assumes "\<forall>p q. (p, q) \<in> leakEdges w h leaks \<longrightarrow> (p \<in> V \<longleftrightarrow> q \<in> V)"
    and "set is \<subseteq> {..<w * h}"
  shows "snd (clusterLoop w h leaks T is (V, nr))
           = (nr \<or> (\<exists>i\<in>set is. i \<in> leaks \<and> i \<notin> V \<and> solidBlob w T (clusterOf w h leaks i)))"
  using assms
proof (induction "is" arbitrary: V nr)
  case Nil
  then show ?case by simp
next
  case (Cons i rest)
  show ?case
  proof (cases nr)
    case True
    then show ?thesis by simp
  next
    case False
    show ?thesis
    proof (cases "i \<in> leaks \<and> i \<notin> V")
      case f: False
      from Cons.prems have "set rest \<subseteq> {..<w * h}" by simp
      from Cons.IH[OF Cons.prems(1) this, of nr] f False show ?thesis by auto
    next
      case True
      then have i: "i \<in> leaks" "i < w * h" "i \<notin> V" using Cons.prems(2) by auto
      then have w0: "0 < w" by (cases w) auto
      from clusterFill_correct[OF Cons.prems(1) i] obtain Ds where
        r: "clusterFill w h leaks (insert i V, [i], [])
              = (V \<union> clusterOf w h leaks i, map (pointOf w) Ds)"
        and d: "distinct Ds" and s: "set Ds = clusterOf w h leaks i"
        by blast
      have b: "isBlob T (map (pointOf w) Ds) = solidBlob w T (clusterOf w h leaks i)"
        using isBlob_solidBlob[OF w0 d] s by simp
      have closed': "\<forall>p q. (p, q) \<in> leakEdges w h leaks \<longrightarrow>
                       (p \<in> V \<union> clusterOf w h leaks i \<longleftrightarrow> q \<in> V \<union> clusterOf w h leaks i)"
      proof (intro allI impI)
        fix p q assume e: "(p, q) \<in> leakEdges w h leaks"
        then have e': "(q, p) \<in> leakEdges w h leaks" by (rule leakEdges_sym)
        have "p \<in> V \<longleftrightarrow> q \<in> V" using Cons.prems(1) e by blast
        moreover have "p \<in> clusterOf w h leaks i \<longleftrightarrow> q \<in> clusterOf w h leaks i"
          using clusterOf_step[OF _ e] clusterOf_step[OF _ e'] by blast
        ultimately show "p \<in> V \<union> clusterOf w h leaks i \<longleftrightarrow> q \<in> V \<union> clusterOf w h leaks i"
          by simp
      qed
      from Cons.prems have rest: "set rest \<subseteq> {..<w * h}" by simp
      have "snd (clusterLoop w h leaks T (i # rest) (V, nr))
              = snd (clusterLoop w h leaks T rest
                       (V \<union> clusterOf w h leaks i, solidBlob w T (clusterOf w h leaks i)))"
        using True False r b by simp
      also have "\<dots> = (solidBlob w T (clusterOf w h leaks i)
                        \<or> (\<exists>j\<in>set rest. j \<in> leaks \<and> j \<notin> V \<union> clusterOf w h leaks i
                              \<and> solidBlob w T (clusterOf w h leaks j)))"
        by (rule Cons.IH[OF closed' rest])
      also have "\<dots> = (nr \<or> (\<exists>j\<in>set (i # rest). j \<in> leaks \<and> j \<notin> V
                              \<and> solidBlob w T (clusterOf w h leaks j)))"
      proof -
        let ?C = "clusterOf w h leaks i"
        let ?B = "\<lambda>j. solidBlob w T (clusterOf w h leaks j)"
        have "?B i" if "j \<in> ?C" "?B j" for j
          using that clusterOf_eq[OF that(1)] by simp
        then have "(?B i \<or> (\<exists>j\<in>set rest. j \<in> leaks \<and> j \<notin> V \<union> ?C \<and> ?B j))
                 = (\<exists>j\<in>set (i # rest). j \<in> leaks \<and> j \<notin> V \<and> ?B j)"
          using i(1,3) by (simp only: set_simps bex_simps Un_iff) blast
        then show ?thesis using False by simp
      qed
      finally show ?thesis .
    qed
  qed
qed

lemma clusterAnalysis_iff:
  "clusterAnalysis w h leaks T
     = (\<exists>p. p \<in> leaks \<and> p < w * h \<and> solidBlob w T (clusterOf w h leaks p))"
  unfolding clusterAnalysis_def
  by (subst clusterLoop_correct) auto



section \<open>Properties of the diff and of the fail-safe paths\<close>

lemma diffLoop_upto:
  "fold (diffStep a b t) [0..<k] ({}, False)
     = ({p. p < k \<and> pixelDiffers a b t p}, \<exists>p<k. pixelDiffers a b t p)"
proof (induction k)
  case 0
  then show ?case by simp
next
  case (Suc k)
  have "{p. p < Suc k \<and> pixelDiffers a b t p}
          = (if pixelDiffers a b t k then insert k {p. p < k \<and> pixelDiffers a b t p}
             else {p. p < k \<and> pixelDiffers a b t p})"
    by (auto simp: less_Suc_eq)
  moreover have "(\<exists>p<Suc k. pixelDiffers a b t p)
                   = (pixelDiffers a b t k \<or> (\<exists>p<k. pixelDiffers a b t p))"
    by (auto simp: less_Suc_eq)
  ultimately show ?case
    using Suc by (simp add: diffStep_def Let_def pixelDiffers_def)
qed

lemma diffLoop_char:
  "diffLoop a b t
     = ({p. p < width a * height a \<and> pixelDiffers a b t p},
        \<exists>p<width a * height a. pixelDiffers a b t p)"
  unfolding diffLoop_def by (rule diffLoop_upto)

lemma performDiffing_same_dims:
  assumes "loadImage env imageBase64 = Inr imgBase" "loadImage env imageNewBase64 = Inr imgNew"
    and "width imgBase = width imgNew" "height imgBase = height imgNew"
  shows "(performDiffing env imageBase64 imageNewBase64 t = None)
           = (\<not> (\<exists>p<width imgBase * height imgBase. pixelDiffers imgBase imgNew t p)
              \<or> overlayFails env
                   (diffOverlayOf (width imgBase) (height imgBase) (fst (diffLoop imgBase imgNew t))))"
  using assms
  by (auto simp: performDiffing_def performDiffingBody_def overlayFails_def diffLoop_char
           split: sum.splits)

lemma identical_not_differs: "0 \<le> t \<Longrightarrow> \<not> pixelDiffers a a t p"
  by (simp add: pixelDiffers_def colorDistanceSq_def)

lemma identical_diff_null:
  assumes "loadImage env imageBase64 = Inr img" "loadImage env imageNewBase64 = Inr img"
  shows "performDiffing env imageBase64 imageNewBase64 100 = None"
    and "generateDiffMap env imageBase64 imageNewBase64 = None"
proof -
  have n: "\<not> (\<exists>p<width img * height img. pixelDiffers img img 100 p)"
    using identical_not_differs[of 100 img] by simp
  show 1: "performDiffing env imageBase64 imageNewBase64 100 = None"
    using performDiffing_same_dims[OF assms refl refl, of 100] n by simp
  then show "generateDiffMap env imageBase64 imageNewBase64 = None"
    by (simp add: generateDiffMap_def workerOnMessage_def orNull_def)
qed

text \<open>
  Claim C8. For two bitmaps of the same dimensions whose overlay, if one is drawn, is
  delivered (the canvas contexts exist, the PNG encoding and the reader succeed),
  \<open>performDiffing\<close> returns \<open>null\<close> exactly when no pixel's squared RGB distance exceeds the
  threshold. Two identical bitmaps give \<open>null\<close> from \<open>performDiffing\<close> at the threshold 100
  that \<open>generateDiffMap\<close> passes, and from \<open>generateDiffMap\<close>, in all surroundings.
\<close>

theorem C8_diff_null_iff_no_change:
  assumes "loadImage env imageBase64 = Inr imgBase" "loadImage env imageNewBase64 = Inr imgNew"
    and "width imgBase = width imgNew" "height imgBase = height imgNew"
  shows "(\<not> overlayFails env
             (diffOverlayOf (width imgBase) (height imgBase) (fst (diffLoop imgBase imgNew t)))
          \<longrightarrow> (performDiffing env imageBase64 imageNewBase64 t = None)
                = (\<not> (\<exists>p<width imgBase * height imgBase. pixelDiffers imgBase imgNew t p)))
       \<and> (imgNew = imgBase
          \<longrightarrow> performDiffing env imageBase64 imageNewBase64 100 = None
              \<and> generateDiffMap env imageBase64 imageNewBase64 = None)"
proof (intro conjI impI)
  assume "\<not> overlayFails env
             (diffOverlayOf (width imgBase) (height imgBase) (fst (diffLoop imgBase imgNew t)))"
  then show "(performDiffing env imageBase64 imageNewBase64 t = None)
               = (\<not> (\<exists>p<width imgBase * height imgBase. pixelDiffers imgBase imgNew t p))"
    using performDiffing_same_dims[OF assms, of t] by simp
next
  assume e: "imgNew = imgBase"
  show "performDiffing env imageBase64 imageNewBase64 100 = None"
    using identical_diff_null(1)[OF assms(1) assms(2)[unfolded e]] .
  show "generateDiffMap env imageBase64 imageNewBase64 = None"
    using identical_diff_null(2)[OF assms(1) assms(2)[unfolded e]] .
qed

text \<open>
  Claim C3, as amended. When the widths or the heights of the two decoded bitmaps differ,
  the \<open>try\<close> block of \<open>performDiffing\<close> throws the dimension error, the \<open>catch\<close> block
  turns it into \<open>null\<close>, and \<open>generateDiffMap\<close> resolves with \<open>null\<close>: the caller gets the
  value that also means "no visible change", and no error.
\<close>

theorem C3_dimension_mismatch_resolves_null:
  assumes "loadImage env imageBase64 = Inr imgBase" "loadImage env imageNewBase64 = Inr imgNew"
    and "width imgBase \<noteq> width imgNew \<or> height imgBase \<noteq> height imgNew"
  shows "performDiffingBody env imageBase64 imageNewBase64 t = Inl dimensionMismatch
       \<and> performDiffing env imageBase64 imageNewBase64 t = None
       \<and> generateDiffMap env imageBase64 imageNewBase64 = None"
  using assms
  by (auto simp: performDiffing_def performDiffingBody_def generateDiffMap_def
        workerOnMessage_def orNull_def)

text \<open>The promise of \<open>hasBlueprintLeaks\<close> never rejects: the command it sends is known.\<close>

lemma hasBlueprintLeaks_resolves:
  "\<exists>result. hasBlueprintLeaks env mapImageSrc mapStyle = Inr result"
  by (cases "styleThresholds mapStyle")
     (simp add: hasBlueprintLeaks_def workerOnMessage_def Let_def)

text \<open>
  Claim C6. When the worker raises an error event, when the image does not decode, when a
  canvas context is missing, or when anything else throws inside \<open>performLeakDetection\<close>,
  the promise of \<open>hasBlueprintLeaks\<close> resolves (it does not reject) with
  \<open>needsRefinement = false\<close> and a \<open>null\<close> leak map.
\<close>

theorem C6_analysis_failure_fails_safe:
  assumes "styleThresholds mapStyle = (T, c, f)"
    and "workerCrashes env
         \<or> (\<exists>err. loadImage env mapImageSrc = Inl err)
         \<or> \<not> getContext env 0 \<or> \<not> getContext env 1
         \<or> (\<exists>err. performLeakDetectionBody env mapImageSrc getBlueprintColorsRGB T c f = Inl err)"
  shows "hasBlueprintLeaks env mapImageSrc mapStyle
           = Inr \<lparr>needsRefinement = False, leakMapUrl = None\<rparr>"
proof (cases "workerCrashes env")
  case True
  then show ?thesis by (simp add: hasBlueprintLeaks_def)
next
  case False
  have "\<exists>err. performLeakDetectionBody env mapImageSrc getBlueprintColorsRGB T c f = Inl err"
  proof -
    from assms(2) False consider
        (load) err where "loadImage env mapImageSrc = Inl err"
      | (ctx) "\<not> getContext env 0 \<or> \<not> getContext env 1"
      | (body) err where "performLeakDetectionBody env mapImageSrc getBlueprintColorsRGB T c f = Inl err"
      by blast
    then show ?thesis
    proof cases
      case load
      then show ?thesis by (simp add: performLeakDetectionBody_def)
    next
      case ctx
      then show ?thesis
        by (cases "loadImage env mapImageSrc") (auto simp: performLeakDetectionBody_def Let_def)
    next
      case body
      then show ?thesis by blast
    qed
  qed
  then show ?thesis
    using False assms(1)
    by (auto simp: hasBlueprintLeaks_def workerOnMessage_def performLeakDetection_def orNull_def)
qed


text \<open>
  Claim C3 as stated fails: a 1 x 1 and a 2 x 1 bitmap, both decoded, give \<open>null\<close> from
  \<open>performDiffing\<close> and from \<open>generateDiffMap\<close>, not an error.
\<close>

theorem C3_dimension_mismatch_is_loud_counterexample:
  "loadImage (demoWorker [(''a'', solidImage 1 1 (0, 0, 0)), (''b'', solidImage 2 1 (0, 0, 0))] True) ''a''
     = Inr (solidImage 1 1 (0, 0, 0))
   \<and> loadImage (demoWorker [(''a'', solidImage 1 1 (0, 0, 0)), (''b'', solidImage 2 1 (0, 0, 0))] True) ''b''
     = Inr (solidImage 2 1 (0, 0, 0))
   \<and> width (solidImage 1 1 (0, 0, 0)) \<noteq> width (solidImage 2 1 (0, 0, 0))
   \<and> performDiffing
         (demoWorker [(''a'', solidImage 1 1 (0, 0, 0)), (''b'', solidImage 2 1 (0, 0, 0))] True)
         ''a'' ''b'' 100 = None
   \<and> generateDiffMap
         (demoWorker [(''a'', solidImage 1 1 (0, 0, 0)), (''b'', solidImage 2 1 (0, 0, 0))] True)
         ''a'' ''b'' = None"
  by (simp add: demoWorker_def solidImage_def performDiffing_def performDiffingBody_def
        generateDiffMap_def workerOnMessage_def orNull_def)

text \<open>The amended claim C3 at the same two bitmaps.\<close>

theorem C3_dimension_mismatch_resolves_null_witness:
  "loadImage (demoWorker [(''a'', solidImage 1 1 (0, 0, 0)), (''b'', solidImage 2 1 (0, 0, 0))] True) ''a''
     = Inr (solidImage 1 1 (0, 0, 0))
   \<and> loadImage (demoWorker [(''a'', solidImage 1 1 (0, 0, 0)), (''b'', solidImage 2 1 (0, 0, 0))] True) ''b''
     = Inr (solidImage 2 1 (0, 0, 0))
   \<and> width (solidImage 1 1 (0, 0, 0)) \<noteq> width (solidImage 2 1 (0, 0, 0))
   \<and> performDiffingBody
         (demoWorker [(''a'', solidImage 1 1 (0, 0, 0)), (''b'', solidImage 2 1 (0, 0, 0))] True)
         ''a'' ''b'' 100 = Inl dimensionMismatch
   \<and> performDiffing
         (demoWorker [(''a'', solidImage 1 1 (0, 0, 0)), (''b'', solidImage 2 1 (0, 0, 0))] True)
         ''a'' ''b'' 100 = None
   \<and> generateDiffMap
         (demoWorker [(''a'', solidImage 1 1 (0, 0, 0)), (''b'', solidImage 2 1 (0, 0, 0))] True)
         ''a'' ''b'' = None"
proof -
  let ?env = "demoWorker [(''a'', solidImage 1 1 (0, 0, 0)), (''b'', solidImage 2 1 (0, 0, 0))] True"
  have a: "loadImage ?env ''a'' = Inr (solidImage 1 1 (0, 0, 0))"
    and b: "loadImage ?env ''b'' = Inr (solidImage 2 1 (0, 0, 0))"
    by (simp_all add: demoWorker_def)
  have d: "width (solidImage 1 1 (0, 0, 0)) \<noteq> width (solidImage 2 1 (0, 0, 0))
           \<or> height (solidImage 1 1 (0, 0, 0)) \<noteq> height (solidImage 2 1 (0, 0, 0))"
    by (simp add: solidImage_def)
  have d': "width (solidImage 1 1 (0, 0, 0)) \<noteq> width (solidImage 2 1 (0, 0, 0))"
    by (simp add: solidImage_def)
  from C3_dimension_mismatch_resolves_null[OF a b d, of 100] a b d'
  show ?thesis by simp
qed

text \<open>
  Claim C8 at a black and a white 1 x 1 bitmap, which differ in their only pixel and give
  an overlay, and at two identical 2 x 2 bitmaps, which give \<open>null\<close>.
\<close>

theorem C8_diff_null_iff_no_change_witness:
  "loadImage (demoWorker [(''a'', solidImage 1 1 (0, 0, 0)), (''b'', solidImage 1 1 (255, 255, 255))] True) ''a''
     = Inr (solidImage 1 1 (0, 0, 0))
   \<and> loadImage (demoWorker [(''a'', solidImage 1 1 (0, 0, 0)), (''b'', solidImage 1 1 (255, 255, 255))] True) ''b''
     = Inr (solidImage 1 1 (255, 255, 255))
   \<and> \<not> overlayFails
         (demoWorker [(''a'', solidImage 1 1 (0, 0, 0)), (''b'', solidImage 1 1 (255, 255, 255))] True)
         (diffOverlayOf 1 1
            (fst (diffLoop (solidImage 1 1 (0, 0, 0)) (solidImage 1 1 (255, 255, 255)) 100)))
   \<and> pixelDiffers (solidImage 1 1 (0, 0, 0)) (solidImage 1 1 (255, 255, 255)) 100 0
   \<and> performDiffing
         (demoWorker [(''a'', solidImage 1 1 (0, 0, 0)), (''b'', solidImage 1 1 (255, 255, 255))] True)
         ''a'' ''b'' 100 \<noteq> None
   \<and> loadImage (demoWorker [(''c'', solidImage 2 2 (0, 0, 0)), (''d'', solidImage 2 2 (0, 0, 0))] True) ''c''
     = Inr (solidImage 2 2 (0, 0, 0))
   \<and> loadImage (demoWorker [(''c'', solidImage 2 2 (0, 0, 0)), (''d'', solidImage 2 2 (0, 0, 0))] True) ''d''
     = Inr (solidImage 2 2 (0, 0, 0))
   \<and> performDiffing
         (demoWorker [(''c'', solidImage 2 2 (0, 0, 0)), (''d'', solidImage 2 2 (0, 0, 0))] True)
         ''c'' ''d'' 100 = None
   \<and> generateDiffMap
         (demoWorker [(''c'', solidImage 2 2 (0, 0, 0)), (''d'', solidImage 2 2 (0, 0, 0))] True)
         ''c'' ''d'' = None"
proof -
  let ?env = "demoWorker [(''a'', solidImage 1 1 (0, 0, 0)), (''b'', solidImage 1 1 (255, 255, 255))] True"
  let ?env' = "demoWorker [(''c'', solidImage 2 2 (0, 0, 0)), (''d'', solidImage 2 2 (0, 0, 0))] True"
  have a: "loadImage ?env ''a'' = Inr (solidImage 1 1 (0, 0, 0))"
    and b: "loadImage ?env ''b'' = Inr (solidImage 1 1 (255, 255, 255))"
    and c: "loadImage ?env' ''c'' = Inr (solidImage 2 2 (0, 0, 0))"
    and d: "loadImage ?env' ''d'' = Inr (solidImage 2 2 (0, 0, 0))"
    by (simp_all add: demoWorker_def)
  have wh: "width (solidImage 1 1 (0, 0, 0)) = width (solidImage 1 1 (255, 255, 255))"
    "height (solidImage 1 1 (0, 0, 0)) = height (solidImage 1 1 (255, 255, 255))"
    "width (solidImage 1 1 (0, 0, 0)) = 1" "height (solidImage 1 1 (0, 0, 0)) = 1"
    by (simp_all add: solidImage_def)
  have o: "\<not> overlayFails ?env
             (diffOverlayOf 1 1
                (fst (diffLoop (solidImage 1 1 (0, 0, 0)) (solidImage 1 1 (255, 255, 255)) 100)))"
    by (simp add: overlayFails_def demoWorker_def)
  have p: "pixelDiffers (solidImage 1 1 (0, 0, 0)) (solidImage 1 1 (255, 255, 255)) 100 0"
    by (simp add: pixelDiffers_def solidImage_def colorDistanceSq_def)
  from C8_diff_null_iff_no_change[OF a b wh(1,2), of 100, THEN conjunct1, THEN mp]
    o p wh(3,4)
  have 1: "performDiffing ?env ''a'' ''b'' 100 \<noteq> None"
    by auto
  from C8_diff_null_iff_no_change[OF c d refl refl, of 100, THEN conjunct2, THEN mp, OF refl]
  have 2: "performDiffing ?env' ''c'' ''d'' 100 = None \<and> generateDiffMap ?env' ''c'' ''d'' = None" .
  from a b c d o p 1 2 show ?thesis by blast
qed

text \<open>Claim C6 at a data URL that does not decode.\<close>

theorem C6_analysis_failure_fails_safe_witness:
  "styleThresholds Photorealistic = (400, 100, Some 50)
   \<and> (\<exists>err. loadImage (demoWorker [] True) ''not an image'' = Inl err)
   \<and> hasBlueprintLeaks (demoWorker [] True) ''not an image'' Photorealistic
       = Inr \<lparr>needsRefinement = False, leakMapUrl = None\<rparr>"
proof -
  have t: "styleThresholds Photorealistic = (400, 100, Some 50)"
    by (simp add: styleThresholds_def)
  have l: "\<exists>err. loadImage (demoWorker [] True) ''not an image'' = Inl err"
    by (simp add: demoWorker_def)
  from C6_analysis_failure_fails_safe[OF t, of "demoWorker [] True" "''not an image''"] t l
  show ?thesis by blast
qed



section \<open>The fast path and the detection result\<close>

lemma totalLeakedPixels_card:
  "totalLeakedPixels w h leaks = card (leaks \<inter> {..<w * h})"
proof -
  have "length (filter (\<lambda>i. i \<in> leaks) [0..<w * h]) = card ({i. i \<in> leaks} \<inter> set [0..<w * h])"
    by (rule distinct_length_filter) simp
  also have "{i. i \<in> leaks} \<inter> set [0..<w * h] = leaks \<inter> {..<w * h}" by auto
  finally show ?thesis by (simp add: totalLeakedPixels_def)
qed

lemma clusterOf_card_le:
  assumes "p \<in> leaks" "p < w * h"
  shows "card (clusterOf w h leaks p) \<le> totalLeakedPixels w h leaks"
  unfolding totalLeakedPixels_card
  by (rule card_mono) (use clusterOf_subset[OF assms] in auto)

lemma clusterAnalysis_below_threshold:
  assumes "int (totalLeakedPixels w h leaks) < T"
  shows "\<not> clusterAnalysis w h leaks T"
proof
  assume "clusterAnalysis w h leaks T"
  then obtain p where p: "p \<in> leaks" "p < w * h" and b: "solidBlob w T (clusterOf w h leaks p)"
    unfolding clusterAnalysis_iff by blast
  from b have "T < int (card (clusterOf w h leaks p))" by (simp add: solidBlob_def)
  with clusterOf_card_le[OF p] assms show False by linarith
qed

text \<open>
  Claim C2. When the leak mask built by the two classification passes has fewer leak pixels
  than \<open>clusterSizeThreshold\<close>, the detection result has \<open>needsRefinement = false\<close> (the
  clustering is not run), and the cluster analysis of pass 4, had it been run on that mask,
  would have given false as well.
\<close>

theorem C2_fast_path_is_sound:
  assumes "loadImage env mapImageSrc = Inr img"
    and "int (totalLeakedPixels (width img) (height img) (leakMask img P T c f)) < T"
  shows "\<not> needsRefinement (performLeakDetection env mapImageSrc P T c f)
       \<and> \<not> clusterAnalysis (width img) (height img) (leakMask img P T c f) T"
proof
  show "\<not> needsRefinement (performLeakDetection env mapImageSrc P T c f)"
    using assms
    by (simp add: performLeakDetection_def performLeakDetectionBody_def Let_def split: sum.splits)
  show "\<not> clusterAnalysis (width img) (height img) (leakMask img P T c f) T"
    using assms(2) by (rule clusterAnalysis_below_threshold)
qed

lemma performLeakDetectionBody_result:
  assumes "loadImage env mapImageSrc = Inr img"
    and "performLeakDetectionBody env mapImageSrc P T c f = Inr result"
  shows "needsRefinement result
           = clusterAnalysis (width img) (height img) (leakMask img P T c f) T"
proof (cases "int (totalLeakedPixels (width img) (height img) (leakMask img P T c f)) < T")
  case True
  then have "\<not> needsRefinement result"
    using assms
    by (auto simp: performLeakDetectionBody_def Let_def split: sum.splits if_splits)
  with clusterAnalysis_below_threshold[OF True] show ?thesis by simp
next
  case False
  then show ?thesis
    using assms
    by (auto simp: performLeakDetectionBody_def Let_def split: sum.splits if_splits)
qed

text \<open>
  Claim C1. For every leak mask, the \<open>needsRefinement\<close> that pass 4 computes is true exactly
  when some leak pixel's cluster (the maximal set of leak pixels connected to it through
  the square window of radius 3) has more pixels than \<open>clusterSizeThreshold\<close>, a convex hull
  of at least 3 vertices and positive area, and a solidity above 0.75. Whenever the analysis
  of an image completes, this is the \<open>needsRefinement\<close> of the detection result; clusters
  that are too small, have a degenerate hull or a solidity of at most 0.75 never set it.
\<close>

theorem C1_needs_refinement_iff_solid_cluster:
  "clusterAnalysis w h leaks T
     = (\<exists>p. p \<in> leaks \<and> p < w * h \<and> solidBlob w T (clusterOf w h leaks p))
   \<and> (loadImage env mapImageSrc = Inr img
        \<and> performLeakDetectionBody env mapImageSrc P T c f = Inr result
      \<longrightarrow> needsRefinement result
            = (\<exists>p. p \<in> leakMask img P T c f \<and> p < width img * height img
                   \<and> solidBlob (width img) T
                        (clusterOf (width img) (height img) (leakMask img P T c f) p)))"
proof (intro conjI impI)
  show "clusterAnalysis w h leaks T
          = (\<exists>p. p \<in> leaks \<and> p < w * h \<and> solidBlob w T (clusterOf w h leaks p))"
    by (rule clusterAnalysis_iff)
next
  assume a: "loadImage env mapImageSrc = Inr img
             \<and> performLeakDetectionBody env mapImageSrc P T c f = Inr result"
  then have "needsRefinement result
               = clusterAnalysis (width img) (height img) (leakMask img P T c f) T"
    using performLeakDetectionBody_result[of env mapImageSrc img P T c f result] by simp
  then show "needsRefinement result
          = (\<exists>p. p \<in> leakMask img P T c f \<and> p < width img * height img
                 \<and> solidBlob (width img) T
                      (clusterOf (width img) (height img) (leakMask img P T c f) p))"
    by (simp only: clusterAnalysis_iff)
qed

text \<open>Claim C2 at a green 2 x 2 bitmap and a threshold of 5.\<close>

theorem C2_fast_path_is_sound_witness:
  "loadImage (demoWorker [(''a'', solidImage 2 2 (0, 255, 0))] True) ''a''
     = Inr (solidImage 2 2 (0, 255, 0))
   \<and> int (totalLeakedPixels (width (solidImage 2 2 (0, 255, 0))) (height (solidImage 2 2 (0, 255, 0)))
            (leakMask (solidImage 2 2 (0, 255, 0)) getBlueprintColorsRGB 5 100 None)) < 5
   \<and> \<not> needsRefinement
         (performLeakDetection (demoWorker [(''a'', solidImage 2 2 (0, 255, 0))] True) ''a''
            getBlueprintColorsRGB 5 100 None)
   \<and> \<not> clusterAnalysis (width (solidImage 2 2 (0, 255, 0))) (height (solidImage 2 2 (0, 255, 0)))
          (leakMask (solidImage 2 2 (0, 255, 0)) getBlueprintColorsRGB 5 100 None) 5"
proof -
  have l: "loadImage (demoWorker [(''a'', solidImage 2 2 (0, 255, 0))] True) ''a''
             = Inr (solidImage 2 2 (0, 255, 0))"
    by (simp add: demoWorker_def)
  have t: "int (totalLeakedPixels (width (solidImage 2 2 (0, 255, 0)))
                  (height (solidImage 2 2 (0, 255, 0)))
                  (leakMask (solidImage 2 2 (0, 255, 0)) getBlueprintColorsRGB 5 100 None)) < 5"
    by code_simp
  from C2_fast_path_is_sound[OF l t] l t show ?thesis by simp
qed

text \<open>Claim C1 at a green 2 x 2 bitmap and a threshold of 1: the detection completes and finds a blob.\<close>

theorem C1_needs_refinement_iff_solid_cluster_witness:
  "loadImage (demoWorker [(''a'', solidImage 2 2 (0, 255, 0))] True) ''a''
     = Inr (solidImage 2 2 (0, 255, 0))
   \<and> performLeakDetectionBody (demoWorker [(''a'', solidImage 2 2 (0, 255, 0))] True) ''a''
        getBlueprintColorsRGB 1 100 None
     = Inr \<lparr>needsRefinement = True, leakMapUrl = Some ''data:image/png;base64,png''\<rparr>
   \<and> (\<exists>p. p \<in> leakMask (solidImage 2 2 (0, 255, 0)) getBlueprintColorsRGB 1 100 None
          \<and> p < width (solidImage 2 2 (0, 255, 0)) * height (solidImage 2 2 (0, 255, 0))
          \<and> solidBlob (width (solidImage 2 2 (0, 255, 0))) 1
               (clusterOf (width (solidImage 2 2 (0, 255, 0))) (height (solidImage 2 2 (0, 255, 0)))
                  (leakMask (solidImage 2 2 (0, 255, 0)) getBlueprintColorsRGB 1 100 None) p))"
proof -
  let ?env = "demoWorker [(''a'', solidImage 2 2 (0, 255, 0))] True"
  have l: "loadImage ?env ''a'' = Inr (solidImage 2 2 (0, 255, 0))"
    by (simp add: demoWorker_def)
  have b: "performLeakDetectionBody ?env ''a'' getBlueprintColorsRGB 1 100 None
             = Inr \<lparr>needsRefinement = True, leakMapUrl = Some ''data:image/png;base64,png''\<rparr>"
    by code_simp
  from C1_needs_refinement_iff_solid_cluster[where env = ?env and mapImageSrc = "''a''"
         and img = "solidImage 2 2 (0, 255, 0)" and P = getBlueprintColorsRGB and T = 1
         and c = 100 and f = None
         and result = "\<lparr>needsRefinement = True, leakMapUrl = Some ''data:image/png;base64,png''\<rparr>"]
       l b
  show ?thesis by simp
qed
section \<open>Properties of the two classification passes\<close>

subsection \<open>The flood fill of pass 1 builds the regions\<close>

lemma div_mod_row: "r < w \<Longrightarrow> (d * w + r) div w = d \<and> (d * w + r) mod w = (r::nat)"
  by simp

lemma flatNeighbors_iff:
  assumes "cur < w * h"
  shows "q \<in> set (flatNeighbors w h cur) \<longleftrightarrow> fourAdjacent w h cur q"
proof -
  define d where "d = cur div w"
  define m where "m = cur mod w"
  have w0: "0 < w" using assms by (cases w) auto
  have dh: "d < h" using assms w0 by (simp add: d_def less_mult_imp_div_less mult.commute)
  have mw: "m < w" using w0 by (simp add: m_def)
  have c: "cur = d * w + m" by (simp add: d_def m_def)
  have row: "(d + 1) * w \<le> h * w" using dh by (intro mult_le_mono1) simp
  have inr: "d' < h \<Longrightarrow> m' < w \<Longrightarrow> d' * w + m' < w * h" for d' m'
  proof -
    assume a: "d' < h" "m' < w"
    then have "d' * w + m' < d' * w + w" by simp
    also have "\<dots> = (d' + 1) * w" by simp
    also have "\<dots> \<le> h * w" using a by (intro mult_le_mono1) simp
    finally show ?thesis by (simp add: mult.commute)
  qed
  show ?thesis
  proof
    assume "q \<in> set (flatNeighbors w h cur)"
    then consider (top) "d > 0" "q = cur - w"
      | (bottom) "d < h - 1" "q = cur + w"
      | (left) "m > 0" "q = cur - 1"
      | (right) "m < w - 1" "q = cur + 1"
      by (auto simp: flatNeighbors_def Let_def d_def m_def split: if_splits)
    then obtain d' m' where q: "q = d' * w + m'" "d' < h" "m' < w"
      and adj: "(d' = d \<and> (m = m' + 1 \<or> m' = m + 1)) \<or> (m' = m \<and> (d = d' + 1 \<or> d' = d + 1))"
    proof cases
      case top
      then obtain e where e: "d = Suc e" by (cases d) auto
      have "q = e * w + m" using top c e by simp
      with that[of e m] e dh mw show ?thesis by simp
    next
      case bottom
      have "q = (d + 1) * w + m" using bottom c by simp
      with that[of "d + 1" m] bottom mw show ?thesis by simp
    next
      case left
      have "q = d * w + (m - 1)" using left c by simp
      with that[of d "m - 1"] left dh mw show ?thesis by simp
    next
      case right
      have "q = d * w + (m + 1)" using right c by simp
      with that[of d "m + 1"] right dh show ?thesis by simp
    qed
    have "q div w = d'" "q mod w = m'" using div_mod_row[OF q(3), of d'] q(1) by simp_all
    moreover have "q < w * h" unfolding q(1) by (rule inr[OF q(2,3)])
    ultimately show "fourAdjacent w h cur q"
      using adj assms unfolding fourAdjacent_def d_def[symmetric] m_def[symmetric] by auto
  next
    assume a: "fourAdjacent w h cur q"
    define d' where "d' = q div w"
    define m' where "m' = q mod w"
    have q: "q = d' * w + m'" by (simp add: d'_def m'_def)
    from a have qn: "q < w * h" by (simp add: fourAdjacent_def)
    have qdh: "d' < h" using qn w0 by (simp add: d'_def less_mult_imp_div_less mult.commute)
    have mw': "m' < w" using w0 by (simp add: m'_def)
    from a consider
        (right) "d = d'" "m' = m + 1"
      | (left) "d = d'" "m = m' + 1"
      | (bottom) "m = m'" "d' = d + 1"
      | (top) "m = m'" "d = d' + 1"
      unfolding fourAdjacent_def d_def[symmetric] m_def[symmetric] d'_def[symmetric] m'_def[symmetric]
      by auto
    then consider (right') "m < w - 1" "q = cur + 1" | (left') "m > 0" "q = cur - 1"
      | (bottom') "d < h - 1" "q = cur + w" | (top') "d > 0" "q = cur - w"
    proof cases
      case right
      with right' q c mw' show ?thesis by simp
    next
      case left
      with left' q c show ?thesis by simp
    next
      case bottom
      with bottom' q c qdh show ?thesis by simp
    next
      case top
      with top' q c show ?thesis by simp
    qed
    then show "q \<in> set (flatNeighbors w h cur)"
      unfolding flatNeighbors_def Let_def d_def[symmetric] m_def[symmetric]
      by cases simp_all
  qed
qed


lemma fold_flatVisit_char:
  "\<exists>new. fold (flatVisit img thr (sr, sg, sb)) nbrs (v, q) = (v \<union> set new, q @ new)
         \<and> set new = {n \<in> set nbrs. n \<notin> v \<and> n < width img * height img
                          \<and> colorDistanceSq sr sg sb (data img (n * 4)) (data img (n * 4 + 1))
                                (data img (n * 4 + 2)) < thr}
         \<and> distinct new"
proof (induction nbrs arbitrary: v q)
  case Nil
  then show ?case by simp
next
  case (Cons nb nbrs)
  let ?ok = "\<lambda>n. n < width img * height img
                \<and> colorDistanceSq sr sg sb (data img (n * 4)) (data img (n * 4 + 1))
                      (data img (n * 4 + 2)) < thr"
  show ?case
  proof (cases "nb \<notin> v \<and> ?ok nb")
    case True
    from Cons.IH[of "insert nb v" "q @ [nb]"] obtain new where
      f: "fold (flatVisit img thr (sr, sg, sb)) nbrs (insert nb v, q @ [nb])
            = (insert nb v \<union> set new, (q @ [nb]) @ new)"
      and s: "set new = {n \<in> set nbrs. n \<notin> insert nb v \<and> ?ok n}" and d: "distinct new"
      by blast
    have "fold (flatVisit img thr (sr, sg, sb)) (nb # nbrs) (v, q)
            = (v \<union> set (nb # new), q @ (nb # new))"
      using True f by (simp add: flatVisit_def Let_def)
    moreover have "set (nb # new) = {n \<in> set (nb # nbrs). n \<notin> v \<and> ?ok n}"
      using True s by auto
    moreover have "distinct (nb # new)" using s d by auto
    ultimately show ?thesis by blast
  next
    case False
    from Cons.IH[of v q] obtain new where
      f: "fold (flatVisit img thr (sr, sg, sb)) nbrs (v, q) = (v \<union> set new, q @ new)"
      and s: "set new = {n \<in> set nbrs. n \<notin> v \<and> ?ok n}" and d: "distinct new"
      by blast
    have "flatVisit img thr (sr, sg, sb) nb (v, q) = (v, q)"
      using False by (auto simp: flatVisit_def Let_def)
    then have "fold (flatVisit img thr (sr, sg, sb)) (nb # nbrs) (v, q) = (v \<union> set new, q @ new)"
      using f by simp
    moreover have "set new = {n \<in> set (nb # nbrs). n \<notin> v \<and> ?ok n}"
      using False s by auto
    ultimately show ?thesis using d by blast
  qed
qed

lemma seedRegion_refl: "s \<in> seedRegion img thr taken s"
  by (simp add: seedRegion_def)

lemma seedRegion_step:
  "p \<in> seedRegion img thr taken s \<Longrightarrow> (p, q) \<in> seedEdges img thr taken s
   \<Longrightarrow> q \<in> seedRegion img thr taken s"
  by (auto simp: seedRegion_def intro: rtrancl_into_rtrancl)

lemma seedRegion_subset:
  assumes "s < width img * height img" "s \<notin> taken"
  shows "seedRegion img thr taken s \<subseteq> {..<width img * height img} - taken"
proof
  fix q assume "q \<in> seedRegion img thr taken s"
  then have "(s, q) \<in> (seedEdges img thr taken s)\<^sup>*" by (simp add: seedRegion_def)
  then show "q \<in> {..<width img * height img} - taken"
    using assms by (cases rule: rtranclE) (auto simp: seedEdges_def fourAdjacent_def)
qed

lemma flatFill_inv:
  "\<lbrakk>V = V0 \<union> set D \<union> set Q;
    distinct (D @ Q);
    set (D @ Q) \<inter> V0 = {};
    set (D @ Q) \<subseteq> seedRegion img thr V0 s;
    set (D @ Q) \<subseteq> {..<width img * height img};
    \<forall>p\<in>set D. \<forall>q. (p, q) \<in> seedEdges img thr V0 s \<longrightarrow> q \<in> V;
    s \<in> set (D @ Q);
    start = (data img (s * 4), data img (s * 4 + 1), data img (s * 4 + 2))\<rbrakk>
   \<Longrightarrow> \<exists>Dn. flatFill img thr start (V, Q, C) = (V0 \<union> seedRegion img thr V0 s, C @ Dn)
            \<and> distinct (D @ Dn) \<and> set (D @ Dn) = seedRegion img thr V0 s"
proof (induction img thr start "(V, Q, C)" arbitrary: V Q C D rule: flatFill.induct)
  case (1 img thr start V Q C)
  note V = "1.prems"(1) and dist = "1.prems"(2) and disj = "1.prems"(3) and sub = "1.prems"(4)
    and rng = "1.prems"(5) and nbd = "1.prems"(6) and seed = "1.prems"(7) and st = "1.prems"(8)
  let ?S = "seedRegion img thr V0 s"
  let ?E = "seedEdges img thr V0 s"
  show ?case
  proof (cases Q)
    case Nil
    have "?S \<subseteq> set D"
    proof
      fix q assume "q \<in> ?S"
      then have "(s, q) \<in> ?E\<^sup>*" by (simp add: seedRegion_def)
      then show "q \<in> set D"
      proof (induction rule: rtrancl_induct)
        case base
        then show ?case using seed Nil by simp
      next
        case (step y z)
        from step.IH step.hyps(2) nbd have "z \<in> V" by blast
        moreover have "z \<notin> V0" using step.hyps(2) by (simp add: seedEdges_def)
        ultimately show ?case using V Nil by auto
      qed
    qed
    with sub Nil have eq: "set D = ?S" by auto
    have "flatFill img thr start (V, Q, C) = (V, C)"
      using Nil by (subst flatFill.simps) simp
    moreover have "V = V0 \<union> ?S" using V Nil eq by simp
    ultimately show ?thesis using eq dist Nil by (intro exI[where x="[]"]) simp
  next
    case (Cons cur rest)
    have cur: "cur < width img * height img" "cur \<in> ?S"
      using rng sub Cons by auto
    obtain new where
      f: "fold (flatVisit img thr start) (flatNeighbors (width img) (height img) cur) (V, rest)
            = (V \<union> set new, rest @ new)"
      and n: "set new = {n \<in> set (flatNeighbors (width img) (height img) cur).
                           n \<notin> V \<and> n < width img * height img \<and> flatTo img thr s n}"
      and dn: "distinct new"
      using fold_flatVisit_char[of img thr "data img (s * 4)" "data img (s * 4 + 1)"
              "data img (s * 4 + 2)" "flatNeighbors (width img) (height img) cur" V rest]
      unfolding st flatTo_def by blast
    have V0V: "V0 \<subseteq> V" using V by blast
    have newE: "\<And>q. q \<in> set new \<Longrightarrow> (cur, q) \<in> ?E"
      using n V0V flatNeighbors_iff[OF cur(1)] by (auto simp: seedEdges_def)
    have Enew: "\<And>q. (cur, q) \<in> ?E \<Longrightarrow> q \<in> V \<union> set new"
      using n flatNeighbors_iff[OF cur(1)] by (auto simp: seedEdges_def fourAdjacent_def)
    have newS: "set new \<subseteq> ?S"
      using newE seedRegion_step[OF cur(2)] by blast
    have newR: "set new \<subseteq> {..<width img * height img}" using n by auto
    have newV: "set new \<inter> V = {}" using n by auto
    have p1: "V \<union> set new = V0 \<union> set (D @ [cur]) \<union> set (rest @ new)"
      using V Cons by auto
    have p2: "distinct ((D @ [cur]) @ rest @ new)"
      using dist dn newV V Cons by auto
    have p3: "set ((D @ [cur]) @ rest @ new) \<inter> V0 = {}"
      using disj newV V0V Cons by auto
    have p4: "set ((D @ [cur]) @ rest @ new) \<subseteq> ?S"
      using sub newS Cons by auto
    have p5: "set ((D @ [cur]) @ rest @ new) \<subseteq> {..<width img * height img}"
      using rng newR Cons by auto
    have p6: "\<forall>p\<in>set (D @ [cur]). \<forall>q. (p, q) \<in> ?E \<longrightarrow> q \<in> V \<union> set new"
      using nbd Enew by auto
    have p7: "s \<in> set ((D @ [cur]) @ rest @ new)"
      using seed Cons by auto
    from "1.hyps"[OF Cons f[symmetric] p1 p2 p3 p4 p5 p6 p7 st]
    obtain Dn where
      r: "flatFill img thr start (V \<union> set new, rest @ new, C @ [cur])
            = (V0 \<union> ?S, (C @ [cur]) @ Dn)"
      and d: "distinct ((D @ [cur]) @ Dn)" and e: "set ((D @ [cur]) @ Dn) = ?S"
      by blast
    have "flatFill img thr start (V, Q, C) = (V0 \<union> ?S, C @ (cur # Dn))"
      using Cons f r by (subst flatFill.simps) simp
    with d e show ?thesis by (intro exI[where x="cur # Dn"]) simp
  qed
qed

lemma flatFill_correct:
  assumes "s < width img * height img" "s \<notin> taken"
  shows "\<exists>Ds. flatFill img thr (data img (s * 4), data img (s * 4 + 1), data img (s * 4 + 2))
                (insert s taken, [s], [])
              = (taken \<union> seedRegion img thr taken s, Ds)
            \<and> distinct Ds \<and> set Ds = seedRegion img thr taken s"
  using flatFill_inv[of "insert s taken" taken "[]" "[s]" img thr s _ "[]"] assms
    seedRegion_refl[of s img thr taken]
  by auto


text \<open>
  The outer loop of pass 1 goes through the regions in scan order, and marks those with more
  pixels than the threshold.
\<close>

lemma flatPatchStep_scan:
  assumes "i < width img * height img"
    and "flatScan img thr i = (taken, map set regs)" "\<forall>r\<in>set regs. distinct r"
    and "leaks = \<Union> {R \<in> set (map set regs). T < int (card R)}"
  shows "\<exists>regs'. flatPatchStep img T thr i (taken, leaks, regs)
                  = (fst (flatScan img thr (Suc i)),
                     \<Union> {R \<in> set (map set regs'). T < int (card R)}, regs')
               \<and> map set regs' = snd (flatScan img thr (Suc i))
               \<and> (\<forall>r\<in>set regs'. distinct r)"
proof (cases "i \<in> taken")
  case True
  then have "flatScan img thr (Suc i) = (taken, map set regs)"
    using assms(2) by simp
  moreover have "flatPatchStep img T thr i (taken, leaks, regs) = (taken, leaks, regs)"
    using True by (simp add: flatPatchStep_def)
  ultimately show ?thesis using assms(3,4) by (intro exI[where x=regs]) simp
next
  case False
  from flatFill_correct[OF assms(1) False, of thr] obtain Ds where
    f: "flatFill img thr (data img (i * 4), data img (i * 4 + 1), data img (i * 4 + 2))
          (insert i taken, [i], []) = (taken \<union> seedRegion img thr taken i, Ds)"
    and d: "distinct Ds" and e: "set Ds = seedRegion img thr taken i"
    by blast
  have l: "int (length Ds) = int (card (set Ds))"
    using d by (simp add: distinct_card)
  have sc: "flatScan img thr (Suc i)
              = (taken \<union> seedRegion img thr taken i, map set (regs @ [Ds]))"
    using False assms(2) e by simp
  have u: "\<Union> {R \<in> set (map set (regs @ [Ds])). T < int (card R)}
             = (if T < int (length Ds) then leaks \<union> set Ds else leaks)"
    unfolding assms(4) l by auto
  have st: "flatPatchStep img T thr i (taken, leaks, regs)
          = (taken \<union> seedRegion img thr taken i,
             (if T < int (length Ds) then leaks \<union> set Ds else leaks), regs @ [Ds])"
    using False f by (simp add: flatPatchStep_def Let_def)
  show ?thesis
  proof (intro exI[where x="regs @ [Ds]"] conjI)
    show "flatPatchStep img T thr i (taken, leaks, regs)
            = (fst (flatScan img thr (Suc i)),
               \<Union> {R \<in> set (map set (regs @ [Ds])). T < int (card R)}, regs @ [Ds])"
      unfolding st u sc by simp
    show "map set (regs @ [Ds]) = snd (flatScan img thr (Suc i))"
      unfolding sc by simp
    show "\<forall>r\<in>set (regs @ [Ds]). distinct r" using assms(3) d by simp
  qed
qed

lemma fold_flatPatchStep_scan:
  "n \<le> width img * height img \<Longrightarrow>
   \<exists>regs. fold (flatPatchStep img T thr) [0..<n] ({}, {}, [])
            = (fst (flatScan img thr n),
               \<Union> {R \<in> set (map set regs). T < int (card R)}, regs)
          \<and> map set regs = snd (flatScan img thr n)
          \<and> (\<forall>r\<in>set regs. distinct r)"
proof (induction n)
  case 0
  then show ?case by simp
next
  case (Suc n)
  from Suc.prems have "n \<le> width img * height img" by simp
  from Suc.IH[OF this] obtain regs where
    f: "fold (flatPatchStep img T thr) [0..<n] ({}, {}, [])
          = (fst (flatScan img thr n),
             \<Union> {R \<in> set (map set regs). T < int (card R)}, regs)"
    and m: "map set regs = snd (flatScan img thr n)" and d: "\<forall>r\<in>set regs. distinct r"
    by blast
  have sc: "flatScan img thr n = (fst (flatScan img thr n), map set regs)"
    using m by simp
  have i: "n < width img * height img" using Suc.prems by simp
  from flatPatchStep_scan[OF i sc d refl, of T]
  obtain regs' where
    st: "flatPatchStep img T thr n
           (fst (flatScan img thr n), \<Union> {R \<in> set (map set regs). T < int (card R)}, regs)
           = (fst (flatScan img thr (Suc n)),
              \<Union> {R \<in> set (map set regs'). T < int (card R)}, regs')"
    and m': "map set regs' = snd (flatScan img thr (Suc n))"
    and d': "\<forall>r\<in>set regs'. distinct r"
    by blast
  have "fold (flatPatchStep img T thr) [0..<Suc n] ({}, {}, [])
          = flatPatchStep img T thr n (fold (flatPatchStep img T thr) [0..<n] ({}, {}, []))"
    by simp
  also have "\<dots> = (fst (flatScan img thr (Suc n)),
                     \<Union> {R \<in> set (map set regs'). T < int (card R)}, regs')"
    unfolding f by (rule st)
  finally show ?case using m' d' by blast
qed

lemma flatPatchPass_regions:
  assumes "0 < thr"
  shows "fst (flatPatchPass img T (Some thr))
           = \<Union> {R \<in> set (flatRegions img thr). T < int (card R)}"
    and "map set (snd (flatPatchPass img T (Some thr))) = flatRegions img thr"
    and "\<forall>r\<in>set (snd (flatPatchPass img T (Some thr))). distinct r"
proof -
  from fold_flatPatchStep_scan[OF order_refl, of img T thr] obtain regs where
    f: "fold (flatPatchStep img T thr) [0..<width img * height img] ({}, {}, [])
          = (fst (flatScan img thr (width img * height img)),
             \<Union> {R \<in> set (map set regs). T < int (card R)}, regs)"
    and m: "map set regs = flatRegions img thr" and d: "\<forall>r\<in>set regs. distinct r"
    unfolding flatRegions_def by blast
  have p: "flatPatchPass img T (Some thr)
             = (\<Union> {R \<in> set (map set regs). T < int (card R)}, regs)"
    using assms f by (simp add: flatPatchPass_def)
  show "fst (flatPatchPass img T (Some thr))
           = \<Union> {R \<in> set (flatRegions img thr). T < int (card R)}"
    unfolding p m[symmetric] by simp
  show "map set (snd (flatPatchPass img T (Some thr))) = flatRegions img thr"
    unfolding p using m by simp
  show "\<forall>r\<in>set (snd (flatPatchPass img T (Some thr))). distinct r"
    unfolding p using d by simp
qed

text \<open>The regions cover the bitmap.\<close>

lemma flatScan_covers:
  "fst (flatScan img thr n) = \<Union> (set (snd (flatScan img thr n))) \<and> {..<n} \<subseteq> fst (flatScan img thr n)"
proof (induction n)
  case 0
  then show ?case by simp
next
  case (Suc n)
  obtain taken regions where sc: "flatScan img thr n = (taken, regions)"
    by (cases "flatScan img thr n")
  from Suc have "fst (flatScan img thr n) = \<Union> (set (snd (flatScan img thr n)))"
    and "{..<n} \<subseteq> fst (flatScan img thr n)" by blast+
  then have t: "taken = \<Union> (set regions)" "{..<n} \<subseteq> taken"
    unfolding sc by simp_all
  show ?case
  proof (cases "n \<in> taken")
    case True
    then have "flatScan img thr (Suc n) = (taken, regions)" using sc by simp
    moreover have "{..<Suc n} \<subseteq> taken" using t(2) True by (auto simp: less_Suc_eq)
    ultimately show ?thesis using t(1) by simp
  next
    case False
    have n: "n \<in> seedRegion img thr taken n" by (rule seedRegion_refl)
    have "flatScan img thr (Suc n)
            = (taken \<union> seedRegion img thr taken n, regions @ [seedRegion img thr taken n])"
      using False sc by simp
    moreover have "taken \<union> seedRegion img thr taken n
                     = \<Union> (set (regions @ [seedRegion img thr taken n]))"
      using t(1) by auto
    moreover have "{..<Suc n} \<subseteq> taken \<union> seedRegion img thr taken n"
      using t(2) n by (auto simp: less_Suc_eq)
    ultimately show ?thesis by simp
  qed
qed

lemma flatRegions_cover:
  assumes "p < width img * height img"
  shows "\<exists>R\<in>set (flatRegions img thr). p \<in> R"
  using flatScan_covers[of img thr "width img * height img"] assms
  unfolding flatRegions_def by auto

subsection \<open>Pass 2 keeps the marks of pass 1\<close>

lemma fold_paletteStep_keeps:
  assumes "fold (paletteStep img P c) is (leaks, compared) = (leaks', compared')"
    and "leaks0 \<subseteq> leaks" "set compared \<inter> leaks0 = {}"
  shows "leaks0 \<subseteq> leaks' \<and> set compared' \<inter> leaks0 = {}"
  using assms
proof (induction "is" arbitrary: leaks compared)
  case Nil
  then show ?case by simp
next
  case (Cons i rest)
  obtain l1 c1 where s: "paletteStep img P c i (leaks, compared) = (l1, c1)"
    by (cases "paletteStep img P c i (leaks, compared)")
  then have 1: "leaks0 \<subseteq> l1" "set c1 \<inter> leaks0 = {}"
    using Cons.prems(2,3) by (auto simp: paletteStep_def Let_def split: if_splits)
  from Cons.prems(1) s have "fold (paletteStep img P c) rest (l1, c1) = (leaks', compared')"
    by simp
  from Cons.IH[OF this 1] show ?case .
qed

lemma palettePass_keeps:
  "leaks \<subseteq> fst (palettePass img P c leaks) \<and> set (snd (palettePass img P c leaks)) \<inter> leaks = {}"
proof -
  obtain l' c' where f: "palettePass img P c leaks = (l', c')"
    by (cases "palettePass img P c leaks")
  then show ?thesis
    using fold_paletteStep_keeps[of img P c "[0..<width img * height img]" leaks "[]" l' c' leaks]
    by (simp add: palettePass_def)
qed

text \<open>
  Claim C5, as amended. With a flatness threshold above 0, pass 1 marks exactly the pixels
  of the regions of the scan that have more pixels than \<open>clusterSizeThreshold\<close>, where the
  region of a seed (the first pixel in scan order that is in no region yet) consists of the
  pixels that the seed reaches through 4-neighbors, stepping onto pixels that are in no
  earlier region and whose squared color distance to the seed is below the threshold. The
  pixels of such a region are in the leak mask, whatever the palette, and pass 2 does not
  compare them with the palette. With a threshold that is absent or not above 0 pass 1 marks
  nothing, and the mask is that of pass 2 alone; this is the setting of the pixel style.
\<close>

theorem C5_flat_regions_are_leaks:
  "(0 < thr \<and> R \<in> set (flatRegions img thr) \<and> int (card R) > T
    \<longrightarrow> R \<subseteq> fst (flatPatchPass img T (Some thr))
        \<and> R \<subseteq> leakMask img P T c (Some thr)
        \<and> R \<inter> set (snd (palettePass img P c (fst (flatPatchPass img T (Some thr))))) = {})
   \<and> (0 < thr \<longrightarrow> fst (flatPatchPass img T (Some thr))
                     = \<Union> {R \<in> set (flatRegions img thr). T < int (card R)})
   \<and> (thr \<le> 0 \<longrightarrow> flatPatchPass img T (Some thr) = ({}, []))
   \<and> flatPatchPass img T None = ({}, [])
   \<and> leakMask img P T c None = fst (palettePass img P c {})
   \<and> styleThresholds Pixel = (1000, 400, None)"
proof (intro conjI impI)
  assume a: "0 < thr \<and> R \<in> set (flatRegions img thr) \<and> int (card R) > T"
  then have 1: "R \<subseteq> fst (flatPatchPass img T (Some thr))"
    unfolding flatPatchPass_regions(1)[of thr img T, OF conjunct1[OF a]] by blast
  then show "R \<subseteq> fst (flatPatchPass img T (Some thr))" .
  from 1 palettePass_keeps[of "fst (flatPatchPass img T (Some thr))" img P c]
  show "R \<subseteq> leakMask img P T c (Some thr)"
    and "R \<inter> set (snd (palettePass img P c (fst (flatPatchPass img T (Some thr))))) = {}"
    by (auto simp: leakMask_def)
next
  assume "0 < thr"
  then show "fst (flatPatchPass img T (Some thr))
               = \<Union> {R \<in> set (flatRegions img thr). T < int (card R)}"
    by (rule flatPatchPass_regions(1))
qed (simp_all add: flatPatchPass_def leakMask_def styleThresholds_def)

text \<open>The regions of the 3 x 1 bitmap whose red channel is 0, 2 and 4.\<close>

lemma gradient_adjacent:
  "fourAdjacent (width gradientImage) (height gradientImage) 2 1"
  "fourAdjacent (width gradientImage) (height gradientImage) 1 0"
  by (simp_all add: fourAdjacent_def gradientImage_def)

lemma gradient_flatTo:
  "flatTo gradientImage 9 2 1" "flatTo gradientImage 9 1 0" "\<not> flatTo gradientImage 9 2 0"
  by (simp_all add: flatTo_def gradientImage_def colorDistanceSq_def)

lemma gradient_flatRegionOf: "flatRegionOf gradientImage 9 2 = {0, 1, 2}"
proof
  show "flatRegionOf gradientImage 9 2 \<subseteq> {0, 1, 2}"
  proof
    fix q assume "q \<in> flatRegionOf gradientImage 9 2"
    then have "(2, q) \<in> (flatEdges gradientImage 9)\<^sup>*" by (simp add: flatRegionOf_def)
    then have "q < 3"
      by (cases rule: rtranclE) (auto simp: flatEdges_def fourAdjacent_def gradientImage_def)
    then show "q \<in> {0, 1, 2}" by auto
  qed
next
  have e: "(2, 1) \<in> flatEdges gradientImage 9" "(1, 0) \<in> flatEdges gradientImage 9"
    using gradient_adjacent gradient_flatTo by (simp_all add: flatEdges_def)
  then have "(2, 1) \<in> (flatEdges gradientImage 9)\<^sup>*" "(2, 0) \<in> (flatEdges gradientImage 9)\<^sup>*"
    by (blast intro: rtrancl_into_rtrancl)+
  then show "{0, 1, 2} \<subseteq> flatRegionOf gradientImage 9 2"
    by (simp add: flatRegionOf_def)
qed

lemma gradient_seedRegion: "seedRegion gradientImage 9 {} 2 = {1, 2}"
proof
  show "seedRegion gradientImage 9 {} 2 \<subseteq> {1, 2}"
  proof
    fix q assume "q \<in> seedRegion gradientImage 9 {} 2"
    then have "(2, q) \<in> (seedEdges gradientImage 9 {} 2)\<^sup>*" by (simp add: seedRegion_def)
    then have "q = 2 \<or> (q < 3 \<and> flatTo gradientImage 9 2 q)"
      by (cases rule: rtranclE) (auto simp: seedEdges_def fourAdjacent_def gradientImage_def)
    moreover have "q < 3 \<Longrightarrow> q = 0 \<or> q = 1 \<or> q = 2" by auto
    ultimately show "q \<in> {1, 2}" using gradient_flatTo(3) by auto
  qed
next
  have "(2, 1) \<in> seedEdges gradientImage 9 {} 2"
    using gradient_adjacent gradient_flatTo by (simp add: seedEdges_def)
  then have "(2, 1) \<in> (seedEdges gradientImage 9 {} 2)\<^sup>*" by blast
  then show "{1, 2} \<subseteq> seedRegion gradientImage 9 {} 2"
    by (simp add: seedRegion_def)
qed

text \<open>
  Claim C5 as stated fails on the 3 x 1 bitmap whose red channel is 0, 2 and 4, with the
  flatness threshold 9 and the size threshold 1. Pixel 2 lies in the flat-color region
  \<open>{0, 1, 2}\<close> (neighboring colors are at squared distance 4), and the region flood-filled
  from pixel 2 under the test against its own color is \<open>{1, 2}\<close>; both have more than 1 pixel.
  But the scan fills \<open>{0, 1}\<close> from pixel 0 first, which leaves pixel 2 in a region of its own,
  and pixel 2 is marked neither by pass 1 nor in the leak mask.
\<close>

theorem C5_every_flat_region_is_marked_counterexample:
  "(0::int) < 9
   \<and> flatRegionOf gradientImage 9 2 = {0, 1, 2}
   \<and> int (card (flatRegionOf gradientImage 9 2)) > 1
   \<and> seedRegion gradientImage 9 {} 2 = {1, 2}
   \<and> int (card (seedRegion gradientImage 9 {} 2)) > 1
   \<and> 2 \<notin> fst (flatPatchPass gradientImage 1 (Some 9))
   \<and> 2 \<notin> leakMask gradientImage getBlueprintColorsRGB 1 100 (Some 9)"
proof -
  have 1: "2 \<notin> fst (flatPatchPass gradientImage 1 (Some 9))" by code_simp
  have 2: "2 \<notin> leakMask gradientImage getBlueprintColorsRGB 1 100 (Some 9)" by code_simp
  show ?thesis
    unfolding gradient_flatRegionOf gradient_seedRegion using 1 2 by simp
qed

text \<open>
  The amended claim C5 at a 2 x 2 bitmap of a color that is not in the palette: its only
  region has 4 pixels, more than the threshold 1.
\<close>

theorem C5_flat_regions_are_leaks_witness:
  "(0::int) < 50
   \<and> {0, 1, 2, 3} \<in> set (flatRegions (solidImage 2 2 (10, 20, 30)) 50)
   \<and> int (card {0::nat, 1, 2, 3}) > 1
   \<and> {0, 1, 2, 3} \<subseteq> fst (flatPatchPass (solidImage 2 2 (10, 20, 30)) 1 (Some 50))
   \<and> {0, 1, 2, 3} \<subseteq> leakMask (solidImage 2 2 (10, 20, 30)) getBlueprintColorsRGB 1 100 (Some 50)
   \<and> {0, 1, 2, 3} \<inter> set (snd (palettePass (solidImage 2 2 (10, 20, 30)) getBlueprintColorsRGB 100
                        (fst (flatPatchPass (solidImage 2 2 (10, 20, 30)) 1 (Some 50))))) = {}
   \<and> leakMask (solidImage 2 2 (10, 20, 30)) getBlueprintColorsRGB 1 100 None = {}"
proof -
  have "snd (flatPatchPass (solidImage 2 2 (10, 20, 30)) 1 (Some 50)) = [[0, 2, 1, 3]]"
    by code_simp
  then have "flatRegions (solidImage 2 2 (10, 20, 30)) 50 = [set [0, 2, 1, 3]]"
    using flatPatchPass_regions(2)[of 50 "solidImage 2 2 (10, 20, 30)" 1] by simp
  moreover have "set [0::nat, 2, 1, 3] = {0, 1, 2, 3}" by auto
  ultimately have r: "{0, 1, 2, 3} \<in> set (flatRegions (solidImage 2 2 (10, 20, 30)) 50)"
    by simp
  have n: "leakMask (solidImage 2 2 (10, 20, 30)) getBlueprintColorsRGB 1 100 None = {}"
    by code_simp
  have h: "(0::int) < 50 \<and> {0, 1, 2, 3} \<in> set (flatRegions (solidImage 2 2 (10, 20, 30)) 50)
             \<and> int (card {0::nat, 1, 2, 3}) > 1"
    using r by simp
  from C5_flat_regions_are_leaks[of 50 "{0, 1, 2, 3}" "solidImage 2 2 (10, 20, 30)" 1
         getBlueprintColorsRGB 100, THEN conjunct1, THEN mp, OF h] h n
  show ?thesis by blast
qed

section \<open>A bitmap filled with a palette color\<close>


lemma paletteStep_mono:
  "fst s \<subseteq> fst (paletteStep img P c i s)"
  by (cases s) (auto simp: paletteStep_def Let_def)

lemma fold_paletteStep_mono:
  "fst s \<subseteq> fst (fold (paletteStep img P c) is s)"
proof (induction "is" arbitrary: s)
  case Nil
  then show ?case by simp
next
  case (Cons i rest)
  have "fst s \<subseteq> fst (paletteStep img P c i s)" by (rule paletteStep_mono)
  also have "\<dots> \<subseteq> fst (fold (paletteStep img P c) rest (paletteStep img P c i s))"
    by (rule Cons.IH)
  finally show ?case by simp
qed

lemma fold_paletteStep_marks:
  assumes "p \<in> set is"
    and "matchesBlueprint P c (data img (p * 4)) (data img (p * 4 + 1)) (data img (p * 4 + 2))"
  shows "p \<in> fst (fold (paletteStep img P c) is s)"
  using assms(1)
proof (induction "is" arbitrary: s)
  case Nil
  then show ?case by simp
next
  case (Cons i rest)
  show ?case
  proof (cases "p = i")
    case True
    have "p \<in> fst (paletteStep img P c i s)"
      using True assms(2) by (cases s) (auto simp: paletteStep_def Let_def)
    with fold_paletteStep_mono[of "paletteStep img P c i s" img P c rest]
    show ?thesis by auto
  next
    case False
    with Cons.prems have "p \<in> set rest" by simp
    from Cons.IH[OF this] show ?thesis by simp
  qed
qed

lemma matchesBlueprint_exact:
  assumes "bc \<in> set P" "0 < c"
    and "colorDistanceSq r g b (colorR bc) (colorG bc) (colorB bc) = 0"
  shows "matchesBlueprint P c r g b"
  unfolding matchesBlueprint_def list_ex_iff
  using assms by (intro bexI[where x=bc]) simp_all

lemma leakMask_filled:
  assumes "bc \<in> set P" "0 < c"
    and "\<forall>p<width img * height img.
           colorDistanceSq (data img (p * 4)) (data img (p * 4 + 1)) (data img (p * 4 + 2))
             (colorR bc) (colorG bc) (colorB bc) = 0"
  shows "{..<width img * height img} \<subseteq> leakMask img P T c f"
proof
  fix p assume "p \<in> {..<width img * height img}"
  then have p: "p < width img * height img" by simp
  with assms(3) have
    "matchesBlueprint P c (data img (p * 4)) (data img (p * 4 + 1)) (data img (p * 4 + 2))"
    by (intro matchesBlueprint_exact[OF assms(1,2)]) simp
  with p show "p \<in> leakMask img P T c f"
    unfolding leakMask_def palettePass_def
    by (intro fold_paletteStep_marks) simp_all
qed

lemma grid_connected:
  assumes full: "{..<w * h} \<subseteq> leaks" and q: "q < w * h"
  shows "q \<in> clusterOf w h leaks 0"
  using q
proof (induction q rule: less_induct)
  case (less q)
  show ?case
  proof (cases "q = 0")
    case True
    then show ?thesis by (simp add: clusterOf_refl)
  next
    case False
    have w0: "0 < w" using less.prems by (cases w) auto
    show ?thesis
    proof (cases "q mod w = 0")
      case m: False
      have p: "q - 1 < q" "q - 1 < w * h" using False less.prems by simp_all
      obtain q' where q': "q = Suc q'" using False by (cases q) auto
      have "(q - 1) mod w = q mod w - 1" "(q - 1) div w = q div w"
        using m unfolding q' by (simp_all add: mod_Suc div_Suc split: if_splits)
      then have "windowAdjacent w h (q - 1) q"
        using p less.prems m False by (simp add: windowAdjacent_def searchRadius_def)
      then have "(q - 1, q) \<in> leakEdges w h leaks"
        using full p less.prems by (auto simp: leakEdges_def)
      with less.IH[OF p] show ?thesis by (rule clusterOf_step)
    next
      case m: True
      then have "w \<le> q" using False w0 by (metis mod_less neq0_conv not_le)
      then have p: "q - w < q" "q - w < w * h" using w0 less.prems by simp_all
      have "(q - w) mod w = q mod w" "(q - w) div w = q div w - 1"
        using \<open>w \<le> q\<close> w0 by (simp_all add: le_mod_geq le_div_geq)
      moreover have "0 < q div w" using \<open>w \<le> q\<close> w0 by (simp add: div_greater_zero_iff)
      ultimately have "windowAdjacent w h (q - w) q"
        using p less.prems w0 by (simp add: windowAdjacent_def searchRadius_def)
      then have "(q - w, q) \<in> leakEdges w h leaks"
        using full p less.prems by (auto simp: leakEdges_def)
      with less.IH[OF p] show ?thesis by (rule clusterOf_step)
    qed
  qed
qed

lemma clusterOf_full_grid:
  assumes "{..<w * h} \<subseteq> leaks" "0 < w * h"
  shows "clusterOf w h leaks 0 = {..<w * h}"
proof
  show "clusterOf w h leaks 0 \<subseteq> {..<w * h}"
  proof -
    have "0 \<in> leaks" using assms by auto
    from clusterOf_subset[OF this assms(2)] show ?thesis by simp
  qed
  show "{..<w * h} \<subseteq> clusterOf w h leaks 0"
    using grid_connected[OF assms(1)] by auto
qed

subsection \<open>The hull of a full grid\<close>


lemma popNonLeft_short: "length hs < 2 \<Longrightarrow> popNonLeft hs p = hs"
  by (subst popNonLeft.simps) simp

lemma popNonLeft_two:
  "popNonLeft [a, b] p = (if crossProduct a b p \<le> 0 then [a] else [a, b])"
  by (subst popNonLeft.simps) (simp add: popNonLeft_short)

lemma popNonLeft_three:
  "popNonLeft [a, b, c] p = (if crossProduct b c p \<le> 0 then popNonLeft [a, b] p else [a, b, c])"
  by (subst popNonLeft.simps) simp

lemma buildHull_snoc:
  "buildHull (ps @ [p]) = popNonLeft (buildHull ps) p @ [p]"
  by (simp add: buildHull_def)

lemma hullState_step:
  assumes "2 \<le> h"
  shows "popNonLeft (hullState h j) (int (Suc j div h), int (Suc j mod h))
           @ [(int (Suc j div h), int (Suc j mod h))] = hullState h (Suc j)"
proof (cases "Suc (j mod h) = h")
  case False
  then have s: "Suc j div h = j div h" "Suc j mod h = Suc (j mod h)"
    by (simp_all add: div_Suc mod_Suc)
  show ?thesis
    unfolding hullState_def Let_def s
    by (simp add: popNonLeft_short popNonLeft_two popNonLeft_three crossProduct_def
          zero_less_mult_iff mult_le_0_iff)
next
  case True
  then have s: "Suc j div h = Suc (j div h)" "Suc j mod h = 0"
    by (simp_all add: div_Suc mod_Suc)
  have y: "j mod h \<noteq> 0" using True assms by auto
  show ?thesis
    unfolding hullState_def Let_def s
    using y
    by (simp add: popNonLeft_short popNonLeft_two popNonLeft_three crossProduct_def
          zero_less_mult_iff mult_le_0_iff)
qed

lemma buildHull_prefix:
  assumes "2 \<le> h"
  shows "buildHull (map (\<lambda>k. (int (k div h), int (k mod h))) [0..<Suc j]) = hullState h j"
proof (induction j)
  case 0
  show ?case by (simp add: buildHull_def popNonLeft_short hullState_def)
next
  case (Suc j)
  have "buildHull (map (\<lambda>k. (int (k div h), int (k mod h))) [0..<Suc (Suc j)])
          = popNonLeft (hullState h j) (int (Suc j div h), int (Suc j mod h))
              @ [(int (Suc j div h), int (Suc j mod h))]"
  proof -
    let ?f = "\<lambda>k. (int (k div h), int (k mod h))"
    have "map ?f [0..<Suc (Suc j)] = map ?f [0..<Suc j] @ [?f (Suc j)]"
      by (simp only: upt_Suc_append[OF le0] map_append list.map)
    then show ?thesis
      by (simp only: buildHull_snoc Suc)
  qed
  then show ?case by (simp only: hullState_step[OF assms])
qed

lemma div_mod_decomp:
  fixes q r h :: nat
  assumes "r < h"
  shows "(q * h + r) div h = q" "(q * h + r) mod h = r"
  using assms by simp_all

lemma buildHull_colMajor:
  assumes "2 \<le> w" "2 \<le> h"
  shows "buildHull (colMajor w h) = [(0, 0), (int w - 1, 0), (int w - 1, int h - 1)]"
proof -
  obtain j where j: "w * h = Suc j" using assms by (cases "w * h") auto
  have "w * h = (w - 1) * h + h" using assms by (cases w) simp_all
  with j have "Suc j = (w - 1) * h + Suc (h - 1)" using assms by simp
  then have jj: "j = (w - 1) * h + (h - 1)" by simp
  have "h - 1 < h" using assms by simp
  from div_mod_decomp[OF this, of "w - 1"]
  have d: "j div h = w - 1" and m: "j mod h = h - 1"
    unfolding jj by blast+
  have "buildHull (colMajor w h) = hullState h j"
    unfolding colMajor_def j by (rule buildHull_prefix[OF assms(2)])
  also have "\<dots> = [(0, 0), (int w - 1, 0), (int w - 1, int h - 1)]"
    unfolding hullState_def Let_def d m using assms by (simp add: of_nat_diff)
  finally show ?thesis .
qed


lemma crossProduct_reflect:
  "crossProduct (reflectPoint a b p1) (reflectPoint a b p2) (reflectPoint a b p3)
     = crossProduct p1 p2 p3"
  by (simp add: crossProduct_def reflectPoint_def algebra_simps)

lemma popNonLeft_reflect:
  "popNonLeft (map (reflectPoint a b) hs) (reflectPoint a b p)
     = map (reflectPoint a b) (popNonLeft hs p)"
proof (induction hs p rule: popNonLeft.induct)
  case (1 hs p)
  show ?case
  proof (cases "length hs \<ge> 2 \<and> crossProduct (hs ! (length hs - 2)) (hs ! (length hs - 1)) p \<le> 0")
    case True
    then have c: "length (map (reflectPoint a b) hs) \<ge> 2
        \<and> crossProduct (map (reflectPoint a b) hs ! (length (map (reflectPoint a b) hs) - 2))
             (map (reflectPoint a b) hs ! (length (map (reflectPoint a b) hs) - 1))
             (reflectPoint a b p) \<le> 0"
    proof -
      have i: "length hs - 2 < length hs" "length hs - 1 < length hs" using True by auto
      show ?thesis
        using True by (simp only: length_map nth_map[OF i(1)] nth_map[OF i(2)] crossProduct_reflect)
    qed
    have "popNonLeft (map (reflectPoint a b) hs) (reflectPoint a b p)
            = popNonLeft (butlast (map (reflectPoint a b) hs)) (reflectPoint a b p)"
      using c by (subst popNonLeft.simps) simp
    also have "\<dots> = map (reflectPoint a b) (popNonLeft (butlast hs) p)"
      using "1.IH"[OF True] by (simp add: map_butlast)
    also have "popNonLeft (butlast hs) p = popNonLeft hs p"
      using True by (subst (2) popNonLeft.simps) simp
    finally show ?thesis .
  next
    case False
    then have c: "\<not> (length (map (reflectPoint a b) hs) \<ge> 2
        \<and> crossProduct (map (reflectPoint a b) hs ! (length (map (reflectPoint a b) hs) - 2))
             (map (reflectPoint a b) hs ! (length (map (reflectPoint a b) hs) - 1))
             (reflectPoint a b p) \<le> 0)"
    proof (cases "length hs \<ge> 2")
      case l: True
      then have i: "length hs - 2 < length hs" "length hs - 1 < length hs" by auto
      show ?thesis
        using False l by (simp add: nth_map[OF i(1)] nth_map[OF i(2)] crossProduct_reflect)
    next
      case l: False
      then show ?thesis by simp
    qed
    have "popNonLeft (map (reflectPoint a b) hs) (reflectPoint a b p) = map (reflectPoint a b) hs"
      using c by (subst popNonLeft.simps) (simp only: if_False)
    moreover have "popNonLeft hs p = hs"
      using False by (subst popNonLeft.simps) (simp only: if_False)
    ultimately show ?thesis by simp
  qed
qed

lemma fold_hull_reflect:
  "fold (\<lambda>point hullPts. popNonLeft hullPts point @ [point]) (map (reflectPoint a b) ps)
      (map (reflectPoint a b) acc)
     = map (reflectPoint a b) (fold (\<lambda>point hullPts. popNonLeft hullPts point @ [point]) ps acc)"
proof (induction ps arbitrary: acc)
  case Nil
  then show ?case by simp
next
  case (Cons p ps)
  have "popNonLeft (map (reflectPoint a b) acc) (reflectPoint a b p) @ [reflectPoint a b p]
          = map (reflectPoint a b) (popNonLeft acc p @ [p])"
    by (simp add: popNonLeft_reflect)
  then show ?case using Cons.IH[of "popNonLeft acc p @ [p]"] by simp
qed

lemma buildHull_reflect:
  "buildHull (map (reflectPoint a b) ps) = map (reflectPoint a b) (buildHull ps)"
  using fold_hull_reflect[of a b ps "[]"] by (simp add: buildHull_def)

lemma rev_colMajor:
  "rev (colMajor w h) = map (reflectPoint (int w - 1) (int h - 1)) (colMajor w h)"
proof (rule nth_equalityI)
  show "length (rev (colMajor w h)) = length (map (reflectPoint (int w - 1) (int h - 1)) (colMajor w h))"
    by simp
next
  fix k assume "k < length (rev (colMajor w h))"
  then have k: "k < w * h" by (simp add: colMajor_def)
  then have h0: "0 < h" by (cases h) auto
  define a where "a = k div h"
  define b where "b = k mod h"
  have b: "b < h" using h0 by (simp add: b_def)
  have a: "a < w" using k h0 by (simp add: a_def less_mult_imp_div_less)
  have kk: "k = a * h + b" by (simp add: a_def b_def)
  have "(w - 1 - a) + a = w - 1" using a by simp
  then have "((w - 1 - a) + a) * h = (w - 1) * h" by simp
  then have "(w - 1 - a) * h + a * h = (w - 1) * h" by (simp only: add_mult_distrib)
  moreover have "(w - 1) * h + h = w * h" using a by (cases w) simp_all
  ultimately have "(w - 1 - a) * h + (h - 1 - b) + Suc k = w * h"
    using b kk by simp
  then have e: "w * h - Suc k = (w - 1 - a) * h + (h - 1 - b)" by simp
  have "h - 1 - b < h" using h0 by simp
  from div_mod_decomp[OF this, of "w - 1 - a"]
  have d: "(w * h - Suc k) div h = w - 1 - a" and m: "(w * h - Suc k) mod h = h - 1 - b"
    unfolding e by blast+
  have "rev (colMajor w h) ! k = colMajor w h ! (w * h - Suc k)"
    using k by (simp add: rev_nth colMajor_def)
  also have "\<dots> = (int ((w * h - Suc k) div h), int ((w * h - Suc k) mod h))"
  proof -
    have "w * h - Suc k < w * h" using k by simp
    then show ?thesis by (simp add: colMajor_def)
  qed
  also have "\<dots> = (int (w - 1 - a), int (h - 1 - b))"
    by (simp only: d m)
  also have "\<dots> = reflectPoint (int w - 1) (int h - 1) (int a, int b)"
    using a b by (simp add: reflectPoint_def of_nat_diff)
  also have "\<dots> = map (reflectPoint (int w - 1) (int h - 1)) (colMajor w h) ! k"
    using k by (simp add: colMajor_def a_def b_def)
  finally show "rev (colMajor w h) ! k
                  = map (reflectPoint (int w - 1) (int h - 1)) (colMajor w h) ! k" .
qed

lemma buildHull_rev_colMajor:
  assumes "2 \<le> w" "2 \<le> h"
  shows "buildHull (rev (colMajor w h)) = [(int w - 1, int h - 1), (0, int h - 1), (0, 0)]"
  unfolding rev_colMajor buildHull_reflect buildHull_colMajor[OF assms]
  by (simp add: reflectPoint_def)

lemma sorted_colMajor: "sorted (colMajor w h)"
  unfolding sorted_iff_nth_mono
proof (intro allI impI)
  fix i j assume ij: "i \<le> j" and j: "j < length (colMajor w h)"
  then have jn: "j < w * h" and "i < w * h" by (simp_all add: colMajor_def)
  have d: "i div h \<le> j div h" using ij by (rule div_le_mono)
  have "(int (i div h), int (i mod h)) \<le> (int (j div h), int (j mod h))"
  proof (cases "i div h = j div h")
    case True
    have "h * (i div h) + i mod h \<le> h * (j div h) + j mod h"
      using ij by (simp only: mult_div_mod_eq)
    then have "h * (j div h) + i mod h \<le> h * (j div h) + j mod h"
      by (simp only: True)
    then have "i mod h \<le> j mod h" by (simp only: add_le_cancel_left)
    with True show ?thesis by (simp add: less_eq_prod_def)
  next
    case False
    with d have "i div h < j div h" by simp
    then show ?thesis by (simp add: less_eq_prod_def)
  qed
  then show "colMajor w h ! i \<le> colMajor w h ! j"
    using \<open>i < w * h\<close> jn by (simp add: colMajor_def)
qed

lemma distinct_colMajor: "distinct (colMajor w h)"
proof -
  have "inj_on (\<lambda>k. (int (k div h), int (k mod h))) A" for A
  proof (rule inj_onI)
    fix x y assume "(int (x div h), int (x mod h)) = (int (y div h), int (y mod h))"
    then have "x div h = y div h" "x mod h = y mod h" by simp_all
    then show "x = y" by (metis div_mult_mod_eq)
  qed
  then show ?thesis by (simp add: colMajor_def distinct_map)
qed

lemma set_colMajor:
  "set (colMajor w h) = (\<lambda>(a, b). (int a, int b)) ` ({..<w} \<times> {..<h})"
proof (intro equalityI subsetI)
  fix p assume "p \<in> set (colMajor w h)"
  then obtain k where k: "k < w * h" and p: "p = (int (k div h), int (k mod h))"
    by (auto simp: colMajor_def)
  then have h0: "0 < h" by (cases h) auto
  have "k div h < w" "k mod h < h" using k h0 by (simp_all add: less_mult_imp_div_less)
  then show "p \<in> (\<lambda>(a, b). (int a, int b)) ` ({..<w} \<times> {..<h})"
    unfolding p by (intro image_eqI[where x="(k div h, k mod h)"]) simp_all
next
  fix p assume "p \<in> (\<lambda>(a, b). (int a, int b)) ` ({..<w} \<times> {..<h})"
  then obtain a b where ab: "a < w" "b < h" and p: "p = (int a, int b)" by auto
  have "a * h + b < w * h"
  proof -
    have "a * h + b < a * h + h" using ab by simp
    also have "\<dots> = Suc a * h" by simp
    also have "\<dots> \<le> w * h" using ab by (intro mult_le_mono1) simp
    finally show ?thesis .
  qed
  moreover have "p = (int ((a * h + b) div h), int ((a * h + b) mod h))"
    unfolding p using div_mod_decomp[OF ab(2), of a] by simp
  ultimately show "p \<in> set (colMajor w h)"
    unfolding colMajor_def set_map by (intro image_eqI[where x="a * h + b"]) simp_all
qed

lemma set_rowMajor:
  "set (map (pointOf w) [0..<w * h]) = (\<lambda>(a, b). (int a, int b)) ` ({..<w} \<times> {..<h})"
proof (intro equalityI subsetI)
  fix p assume "p \<in> set (map (pointOf w) [0..<w * h])"
  then obtain k where k: "k < w * h" and p: "p = (int (k mod w), int (k div w))"
    by (auto simp: pointOf_def)
  then have w0: "0 < w" by (cases w) auto
  have "k mod w < w" "k div w < h" using k w0 by (simp_all add: less_mult_imp_div_less mult.commute)
  then show "p \<in> (\<lambda>(a, b). (int a, int b)) ` ({..<w} \<times> {..<h})"
    unfolding p by (intro image_eqI[where x="(k mod w, k div w)"]) simp_all
next
  fix p assume "p \<in> (\<lambda>(a, b). (int a, int b)) ` ({..<w} \<times> {..<h})"
  then obtain a b where ab: "a < w" "b < h" and p: "p = (int a, int b)" by auto
  have "b * w + a < w * h"
  proof -
    have "b * w + a < b * w + w" using ab by simp
    also have "\<dots> = Suc b * w" by simp
    also have "\<dots> \<le> h * w" using ab by (intro mult_le_mono1) simp
    finally show ?thesis by (simp add: mult.commute)
  qed
  moreover have "p = pointOf w (b * w + a)"
    unfolding p pointOf_def using div_mod_decomp[OF ab(1), of b] by simp
  ultimately show "p \<in> set (map (pointOf w) [0..<w * h])"
    unfolding set_map by (intro image_eqI[where x="b * w + a"]) simp_all
qed

lemma sortPoints_grid:
  assumes "0 < w"
  shows "sortPoints (map (pointOf w) [0..<w * h]) = colMajor w h"
  unfolding sortPoints_sort
proof (rule sorted_distinct_set_unique)
  show "sorted (sort (map (pointOf w) [0..<w * h]))" by simp
  show "distinct (sort (map (pointOf w) [0..<w * h]))"
    using inj_on_subset[OF pointOf_inj[OF assms] subset_UNIV, of "set [0..<w * h]"]
    by (simp add: distinct_map)
  show "sorted (colMajor w h)" by (rule sorted_colMajor)
  show "distinct (colMajor w h)" by (rule distinct_colMajor)
  show "set (sort (map (pointOf w) [0..<w * h])) = set (colMajor w h)"
    using set_rowMajor[of w h] set_colMajor[of w h] by simp
qed

lemma getConvexHull_grid:
  assumes "2 \<le> w" "2 \<le> h"
  shows "getConvexHull (pointsOf w {..<w * h})
           = [(0, 0), (int w - 1, 0), (int w - 1, int h - 1), (0, int h - 1)]"
proof -
  have p: "pointsOf w {..<w * h} = map (pointOf w) [0..<w * h]"
    by (simp add: pointsOf_def lessThan_atLeast0)
  have "2 * 2 \<le> w * h" using assms by (intro mult_le_mono) simp_all
  then have l: "\<not> length (map (pointOf w) [0..<w * h]) \<le> 2" by simp
  have w0: "0 < w" using assms by simp
  show ?thesis
    unfolding p getConvexHull_def Let_def sortPoints_grid[OF w0]
      buildHull_colMajor[OF assms] buildHull_rev_colMajor[OF assms]
    using l by simp
qed

lemma shoelace_rectangle:
  "shoelaceSum [(0, 0), (a, 0), (a, b), (0, b)] = - 2 * a * b"
  by (simp add: shoelaceSum_def)

lemma solidBlob_grid:
  assumes "2 \<le> w" "2 \<le> h" "T < int (w * h)"
  shows "solidBlob w T {..<w * h}"
proof -
  define A where "A = (int w - 1) * (int h - 1)"
  have a: "0 < int w - 1" "0 < int h - 1" using assms by simp_all
  then have ab: "0 < A" by (simp add: A_def)
  have "shoelaceSum (getConvexHull (pointsOf w {..<w * h})) = - 2 * A"
    unfolding getConvexHull_grid[OF assms(1,2)] shoelace_rectangle A_def by (simp add: algebra_simps)
  then have area: "polygonArea (getConvexHull (pointsOf w {..<w * h})) = of_int A"
    using ab by (simp add: polygonArea_def)
  have "A \<le> int w * int h"
    unfolding A_def using a by (intro mult_mono) simp_all
  then have "A \<le> int (w * h)" by simp
  then have "(of_int A :: rat) \<le> of_int (int (w * h))" by (simp only: of_int_le_iff)
  then have "(of_int A :: rat) \<le> of_nat (w * h)" by simp
  moreover have "(0 :: rat) < of_int A" using ab by simp
  ultimately have "(1 :: rat) \<le> of_nat (w * h) / of_int A"
    by (simp add: le_divide_eq)
  moreover have "SOLIDITY_THRESHOLD < 1" by (simp add: SOLIDITY_THRESHOLD_def)
  ultimately have s: "SOLIDITY_THRESHOLD < of_nat (w * h) / of_int A"
    by (rule less_le_trans[rotated])
  have l: "3 \<le> length (getConvexHull (pointsOf w {..<w * h}))"
    by (simp add: getConvexHull_grid[OF assms(1,2)])
  show ?thesis
    unfolding solidBlob_def area
    using assms(3) s ab l by simp
qed

subsection \<open>The detection result\<close>


text \<open>
  Claim C4, as amended. Let the palette have a positive tolerance and let a bitmap at least
  2 pixels wide and 2 pixels high be filled with a color at squared distance 0 from some
  palette entry, with more pixels than \<open>clusterSizeThreshold\<close>. Whenever its analysis
  completes, the detection result has \<open>needsRefinement = true\<close>.
\<close>

theorem C4_filled_bitmap_needs_refinement:
  assumes "loadImage env mapImageSrc = Inr img"
    and "performLeakDetectionBody env mapImageSrc P T c f = Inr result"
    and "bc \<in> set P" and "0 < c"
    and "\<forall>p<width img * height img.
           colorDistanceSq (data img (p * 4)) (data img (p * 4 + 1)) (data img (p * 4 + 2))
             (colorR bc) (colorG bc) (colorB bc) = 0"
    and "T < int (width img * height img)"
    and "2 \<le> width img" and "2 \<le> height img"
  shows "needsRefinement result"
proof -
  let ?w = "width img" and ?h = "height img" and ?leaks = "leakMask img P T c f"
  have full: "{..<?w * ?h} \<subseteq> ?leaks"
    by (rule leakMask_filled[OF assms(3,4,5)])
  have pos: "0 < ?w * ?h" using assms(7,8) by simp
  have "clusterOf ?w ?h ?leaks 0 = {..<?w * ?h}"
    by (rule clusterOf_full_grid[OF full pos])
  then have "solidBlob ?w T (clusterOf ?w ?h ?leaks 0)"
    using solidBlob_grid[OF assms(7,8,6)] by simp
  moreover have "0 \<in> ?leaks" using full pos by auto
  ultimately have "clusterAnalysis ?w ?h ?leaks T"
    unfolding clusterAnalysis_iff using pos by blast
  then show ?thesis
    using performLeakDetectionBody_result[OF assms(1,2)] by simp
qed

text \<open>
  A bitmap one pixel wide or one pixel high is never flagged: the points of any of its
  clusters are collinear, and the hull of collinear points has at most 2 vertices.
\<close>

lemma crossProduct_row:
  "snd a = 0 \<Longrightarrow> snd b = 0 \<Longrightarrow> snd c = 0 \<Longrightarrow> crossProduct a b c = 0"
  by (simp add: crossProduct_def)

lemma crossProduct_column:
  "fst a = 0 \<Longrightarrow> fst b = 0 \<Longrightarrow> fst c = 0 \<Longrightarrow> crossProduct a b c = 0"
  by (simp add: crossProduct_def)

lemma buildHull_collinear:
  assumes "\<And>a b c. a \<in> set ps \<Longrightarrow> b \<in> set ps \<Longrightarrow> c \<in> set ps \<Longrightarrow> crossProduct a b c = 0"
  shows "length (buildHull ps) \<le> 2 \<and> set (buildHull ps) \<subseteq> set ps"
  using assms
proof (induction ps rule: rev_induct)
  case Nil
  then show ?case by (simp add: buildHull_def)
next
  case (snoc p ps)
  have ih: "length (buildHull ps) \<le> 2" "set (buildHull ps) \<subseteq> set ps"
    using snoc.IH snoc.prems by simp_all
  have "length (popNonLeft (buildHull ps) p) \<le> 1 \<and> set (popNonLeft (buildHull ps) p) \<subseteq> set ps"
  proof (cases "length (buildHull ps) < 2")
    case True
    then show ?thesis using ih by (simp add: popNonLeft_short)
  next
    case False
    with ih obtain a b where ab: "buildHull ps = [a, b]"
      by (cases "buildHull ps"; cases "tl (buildHull ps)") auto
    with ih have "a \<in> set ps" "b \<in> set ps" by simp_all
    then have "crossProduct a b p = 0" by (intro snoc.prems) simp_all
    then show ?thesis using ab \<open>a \<in> set ps\<close> by (simp add: popNonLeft_two)
  qed
  then show ?case by (auto simp: buildHull_snoc)
qed

lemma getConvexHull_collinear:
  assumes "\<And>a b c. a \<in> set ps \<Longrightarrow> b \<in> set ps \<Longrightarrow> c \<in> set ps \<Longrightarrow> crossProduct a b c = 0"
  shows "length (getConvexHull ps) \<le> 2"
proof (cases "length ps \<le> 2")
  case True
  then show ?thesis by (simp add: getConvexHull_def)
next
  case False
  have s: "set (sortPoints ps) = set ps" "set (rev (sortPoints ps)) = set ps"
    by (simp_all add: sortPoints_sort)
  have l: "length (buildHull (sortPoints ps)) \<le> 2"
    using buildHull_collinear[of "sortPoints ps"] assms s by simp
  have u: "length (buildHull (rev (sortPoints ps))) \<le> 2"
    using buildHull_collinear[of "rev (sortPoints ps)"] assms s by simp
  from l u False show ?thesis by (simp add: getConvexHull_def Let_def)
qed

lemma thin_not_solidBlob:
  assumes "w = 1 \<or> h = 1" "C \<subseteq> {..<w * h}"
  shows "\<not> solidBlob w T C"
proof -
  have "crossProduct a b c = 0"
    if "a \<in> set (pointsOf w C)" "b \<in> set (pointsOf w C)" "c \<in> set (pointsOf w C)" for a b c
  proof -
    have fin: "finite C" using assms(2) by (rule finite_subset) simp
    from that fin obtain i j k where
      i: "i \<in> C" "a = pointOf w i" and j: "j \<in> C" "b = pointOf w j" and k: "k \<in> C" "c = pointOf w k"
      by (auto simp: pointsOf_def)
    from assms(1) show ?thesis
    proof
      assume "w = 1"
      then show ?thesis using i j k by (simp add: crossProduct_column pointOf_def)
    next
      assume "h = 1"
      with assms(2) i j k have "i < w" "j < w" "k < w" by auto
      then show ?thesis using i j k by (simp add: crossProduct_row pointOf_def)
    qed
  qed
  then have "length (getConvexHull (pointsOf w C)) \<le> 2" by (rule getConvexHull_collinear)
  then show ?thesis by (simp add: solidBlob_def)
qed

lemma thin_bitmap_never_flags:
  assumes "w = 1 \<or> h = 1"
  shows "\<not> clusterAnalysis w h leaks T"
proof
  assume "clusterAnalysis w h leaks T"
  then obtain p where p: "p \<in> leaks" "p < w * h" and b: "solidBlob w T (clusterOf w h leaks p)"
    unfolding clusterAnalysis_iff by blast
  from clusterOf_subset[OF p] have "clusterOf w h leaks p \<subseteq> {..<w * h}" by simp
  from thin_not_solidBlob[OF assms this] b show False by simp
qed

lemma thin_bitmap_detection:
  assumes "loadImage env mapImageSrc = Inr img" and "width img = 1 \<or> height img = 1"
  shows "\<not> needsRefinement (performLeakDetection env mapImageSrc P T c f)"
  using assms thin_bitmap_never_flags[OF assms(2)]
  by (simp add: performLeakDetection_def performLeakDetectionBody_def Let_def split: sum.splits)


lemma thin_bitmap_demo:
  assumes "map_of images mapImageSrc = Some img" and "width img = 1 \<or> height img = 1"
  shows "hasBlueprintLeaks (demoWorker images True) mapImageSrc mapStyle
           = Inr \<lparr>needsRefinement = False, leakMapUrl = Some ''data:image/png;base64,png''\<rparr>"
proof -
  obtain T c f where t: "styleThresholds mapStyle = (T, c, f)"
    by (cases "styleThresholds mapStyle")
  have "performLeakDetectionBody (demoWorker images True) mapImageSrc getBlueprintColorsRGB T c f
          = Inr \<lparr>needsRefinement = False, leakMapUrl = Some ''data:image/png;base64,png''\<rparr>"
    using assms(1) thin_bitmap_never_flags[OF assms(2)]
    by (simp add: performLeakDetectionBody_def demoWorker_def Let_def)
  then show ?thesis
    using t
    by (simp add: hasBlueprintLeaks_def workerOnMessage_def performLeakDetection_def orNull_def
          demoWorker_def)
qed

text \<open>
  Claim C4 as stated fails. A green (the palette's grass color) bitmap 2 pixels wide and 1
  pixel high has more pixels than the threshold 1, its analysis completes, and the result is
  \<open>needsRefinement = false\<close>: the hull of collinear points has 2 vertices. The same happens
  with the thresholds of the photorealistic style on a green bitmap 401 pixels wide and 1
  pixel high.
\<close>

theorem C4_filled_bitmap_needs_refinement_counterexample:
  "loadImage (demoWorker [(''a'', solidImage 2 1 (0, 255, 0))] True) ''a''
     = Inr (solidImage 2 1 (0, 255, 0))
   \<and> \<lparr>colorId = ''grass'', colorR = 0, colorG = 255, colorB = 0\<rparr> \<in> set getBlueprintColorsRGB
   \<and> colorDistanceSq (data (solidImage 2 1 (0, 255, 0)) 0) (data (solidImage 2 1 (0, 255, 0)) 1)
        (data (solidImage 2 1 (0, 255, 0)) 2) 0 255 0 = 0
   \<and> colorDistanceSq (data (solidImage 2 1 (0, 255, 0)) 4) (data (solidImage 2 1 (0, 255, 0)) 5)
        (data (solidImage 2 1 (0, 255, 0)) 6) 0 255 0 = 0
   \<and> (1::int) < int (width (solidImage 2 1 (0, 255, 0)) * height (solidImage 2 1 (0, 255, 0)))
   \<and> performLeakDetectionBody (demoWorker [(''a'', solidImage 2 1 (0, 255, 0))] True) ''a''
        getBlueprintColorsRGB 1 100 None
     = Inr \<lparr>needsRefinement = False, leakMapUrl = Some ''data:image/png;base64,png''\<rparr>
   \<and> \<not> needsRefinement
         (performLeakDetection (demoWorker [(''a'', solidImage 2 1 (0, 255, 0))] True) ''a''
            getBlueprintColorsRGB 1 100 None)
   \<and> loadImage (demoWorker [(''a'', solidImage 401 1 (0, 255, 0))] True) ''a''
     = Inr (solidImage 401 1 (0, 255, 0))
   \<and> \<lparr>colorId = ''grass'', colorR = 0, colorG = 255, colorB = 0\<rparr> \<in> set getBlueprintColorsRGB
   \<and> \<not> (\<exists>p<width (solidImage 401 1 (0, 255, 0)) * height (solidImage 401 1 (0, 255, 0)).
            colorDistanceSq (data (solidImage 401 1 (0, 255, 0)) (p * 4))
              (data (solidImage 401 1 (0, 255, 0)) (p * 4 + 1))
              (data (solidImage 401 1 (0, 255, 0)) (p * 4 + 2)) 0 255 0 \<noteq> 0)
   \<and> styleThresholds Photorealistic = (400, 100, Some 50)
   \<and> (400::int) < int (width (solidImage 401 1 (0, 255, 0)) * height (solidImage 401 1 (0, 255, 0)))
   \<and> hasBlueprintLeaks (demoWorker [(''a'', solidImage 401 1 (0, 255, 0))] True) ''a'' Photorealistic
       = Inr \<lparr>needsRefinement = False, leakMapUrl = Some ''data:image/png;base64,png''\<rparr>"
proof -
  have l: "loadImage (demoWorker [(''a'', solidImage 2 1 (0, 255, 0))] True) ''a''
             = Inr (solidImage 2 1 (0, 255, 0))"
    by (simp add: demoWorker_def)
  have m: "\<lparr>colorId = ''grass'', colorR = 0, colorG = 255, colorB = 0\<rparr> \<in> set getBlueprintColorsRGB"
    by (simp add: getBlueprintColorsRGB_def)
  have d: "colorDistanceSq (data (solidImage 2 1 (0, 255, 0)) 0) (data (solidImage 2 1 (0, 255, 0)) 1)
        (data (solidImage 2 1 (0, 255, 0)) 2) 0 255 0 = 0"
    "colorDistanceSq (data (solidImage 2 1 (0, 255, 0)) 4) (data (solidImage 2 1 (0, 255, 0)) 5)
        (data (solidImage 2 1 (0, 255, 0)) 6) 0 255 0 = 0"
    "(1::int) < int (width (solidImage 2 1 (0, 255, 0)) * height (solidImage 2 1 (0, 255, 0)))"
    by (simp_all add: solidImage_def colorDistanceSq_def)
  have b: "performLeakDetectionBody (demoWorker [(''a'', solidImage 2 1 (0, 255, 0))] True) ''a''
        getBlueprintColorsRGB 1 100 None
     = Inr \<lparr>needsRefinement = False, leakMapUrl = Some ''data:image/png;base64,png''\<rparr>"
    by code_simp
  then have "\<not> needsRefinement
         (performLeakDetection (demoWorker [(''a'', solidImage 2 1 (0, 255, 0))] True) ''a''
            getBlueprintColorsRGB 1 100 None)"
    by (simp add: performLeakDetection_def)
  note first = l m d b this

  have l2: "loadImage (demoWorker [(''a'', solidImage 401 1 (0, 255, 0))] True) ''a''
             = Inr (solidImage 401 1 (0, 255, 0))"
    by (simp add: demoWorker_def)
  have m2: "\<lparr>colorId = ''grass'', colorR = 0, colorG = 255, colorB = 0\<rparr> \<in> set getBlueprintColorsRGB"
    by (simp add: getBlueprintColorsRGB_def)
  have fill2: "colorDistanceSq (data (solidImage 401 1 (0, 255, 0)) (p * 4))
              (data (solidImage 401 1 (0, 255, 0)) (p * 4 + 1))
              (data (solidImage 401 1 (0, 255, 0)) (p * 4 + 2)) 0 255 0 = 0" for p
    by (simp add: solidImage_def colorDistanceSq_def mod_Suc)
  have t2: "styleThresholds Photorealistic = (400, 100, Some 50)"
    "(400::int) < int (width (solidImage 401 1 (0, 255, 0)) * height (solidImage 401 1 (0, 255, 0)))"
    by (simp_all add: styleThresholds_def solidImage_def)
  have h2: "hasBlueprintLeaks (demoWorker [(''a'', solidImage 401 1 (0, 255, 0))] True) ''a'' Photorealistic
       = Inr \<lparr>needsRefinement = False, leakMapUrl = Some ''data:image/png;base64,png''\<rparr>"
    by (rule thin_bitmap_demo[where img = "solidImage 401 1 (0, 255, 0)"])
       (simp_all add: solidImage_def)
  from first l2 m2 fill2 t2 h2 show ?thesis by simp
qed

text \<open>The amended claim C4 at a green 2 x 2 bitmap, with the flatness pass on.\<close>

theorem C4_filled_bitmap_needs_refinement_witness:
  "loadImage (demoWorker [(''a'', solidImage 2 2 (0, 255, 0))] True) ''a''
     = Inr (solidImage 2 2 (0, 255, 0))
   \<and> performLeakDetectionBody (demoWorker [(''a'', solidImage 2 2 (0, 255, 0))] True) ''a''
        getBlueprintColorsRGB 1 100 (Some 50)
     = Inr \<lparr>needsRefinement = True, leakMapUrl = Some ''data:image/png;base64,png''\<rparr>
   \<and> \<lparr>colorId = ''grass'', colorR = 0, colorG = 255, colorB = 0\<rparr> \<in> set getBlueprintColorsRGB
   \<and> (1::int) < int (width (solidImage 2 2 (0, 255, 0)) * height (solidImage 2 2 (0, 255, 0)))
   \<and> 2 \<le> width (solidImage 2 2 (0, 255, 0)) \<and> 2 \<le> height (solidImage 2 2 (0, 255, 0))
   \<and> needsRefinement \<lparr>needsRefinement = True, leakMapUrl = Some ''data:image/png;base64,png''\<rparr>"
proof -
  let ?env = "demoWorker [(''a'', solidImage 2 2 (0, 255, 0))] True"
  let ?img = "solidImage 2 2 (0, 255, 0)"
  let ?bc = "\<lparr>colorId = ''grass'', colorR = 0, colorG = 255, colorB = 0\<rparr>"
  have l: "loadImage ?env ''a'' = Inr ?img" by (simp add: demoWorker_def)
  have b: "performLeakDetectionBody ?env ''a'' getBlueprintColorsRGB 1 100 (Some 50)
             = Inr \<lparr>needsRefinement = True, leakMapUrl = Some ''data:image/png;base64,png''\<rparr>"
    by code_simp
  have m: "?bc \<in> set getBlueprintColorsRGB" by (simp add: getBlueprintColorsRGB_def)
  have c: "(0::int) < 100" by simp
  have fill: "\<forall>p<width ?img * height ?img.
           colorDistanceSq (data ?img (p * 4)) (data ?img (p * 4 + 1)) (data ?img (p * 4 + 2))
             (colorR ?bc) (colorG ?bc) (colorB ?bc) = 0"
    by (simp add: solidImage_def colorDistanceSq_def mod_Suc)
  have t: "(1::int) < int (width ?img * height ?img)" by (simp add: solidImage_def)
  have d: "2 \<le> width ?img" "2 \<le> height ?img" by (simp_all add: solidImage_def)
  from C4_filled_bitmap_needs_refinement[OF l b m c fill t d] l b m t d
  show ?thesis by simp
qed

end
